theory Spec2Isabelle
  imports Main
begin

section \<open>Data model\<close>

text \<open>
  A record returned by the backend (file metadata or a team-member profile) is a JSON
  object: a Python dict, kept as an association list in insertion order.
\<close>

datatype jvalue =
    JNull
  | JBool bool
  | JNum int
  | JStr string
  | JArr "jvalue list"
  | JObj "(string \<times> jvalue) list"

type_synonym jobject = "(string \<times> jvalue) list"

text \<open>
  The decoded body of a listing response, as far as the scripts read it: the keys
  \<^verbatim>\<open>entries\<close> (files/list_folder), \<^verbatim>\<open>members\<close> (team/members/list_v2),
  \<^verbatim>\<open>cursor\<close> and \<^verbatim>\<open>has_more\<close>. A key that is absent is \<open>None\<close>.
\<close>

record page =
  entries :: "jobject list option"
  members :: "jobject list option"
  cursor :: "string option"
  has_more :: "bool option"

text \<open>
  An HTTP response: \<open>json\<close> is what \<^verbatim>\<open>response.json()\<close> decodes, \<open>None\<close> when the
  body is not valid JSON (\<^verbatim>\<open>JSONDecodeError\<close>).
\<close>

record response =
  status_code :: nat
  resp_text :: string
  json :: "page option"

text \<open>
  What one call of \<^verbatim>\<open>requests.post\<close> does: it raises a
  \<^verbatim>\<open>RequestException\<close> (connection error, timeout) or it returns a response.
  The backend is the list of the outcomes of the successive calls.
\<close>

datatype outcome = Fails string | Responds response

datatype error =
    RequestException string
  | HTTPError nat
  | ApiRequestFailed string
  | JSONDecodeError
  | KeyError string
  | AttributeError
  | FileNotFoundError string
  | ValueError
  | RecursionError
  | ApiError string

datatype payload =
    ListFolder string
  | ListFolderContinue string
  | MembersList bool "string option"

datatype event =
    Post string payload
  | PrintAttemptFailed nat error
  | Sleep nat
  | PrintFileNotFound string
  | PrintJsonError
  | PrintExported
  | PrintCsvComplete

text \<open>
  The result of a call: it returns, it raises, or the listed backend outcomes have run
  out while the call waits for one (\<open>Pending\<close>).
\<close>

datatype 'a result = Returned 'a | Raised error | Pending

text \<open>How a script run ends: \<^verbatim>\<open>exit(n)\<close> or the end of the script (status 0), an
  uncaught exception, or still waiting for the backend.\<close>

datatype ending = Exit nat | Uncaught error | Waiting

fun exit_status :: "ending \<Rightarrow> nat option" where
  "exit_status (Exit n) = Some n"
| "exit_status (Uncaught e) = Some 1"
| "exit_status Waiting = None"

section \<open>dbox\_user\_file\_export.py\<close>

subsection \<open>make\_request\<close>

text \<open>
  Lines 72-73: \<^verbatim>\<open>requests.post\<close> followed by \<^verbatim>\<open>response.raise_for_status()\<close>,
  which raises \<^verbatim>\<open>HTTPError\<close> (a \<^verbatim>\<open>RequestException\<close>) for a status from 400 to
  599.
\<close>

fun post_checked :: "outcome \<Rightarrow> error + response" where
  "post_checked (Fails msg) = Inl (RequestException msg)"
| "post_checked (Responds r) =
     (if 400 \<le> status_code r \<and> status_code r < 600 then Inl (HTTPError (status_code r))
      else Inr r)"

text \<open>
  The loop \<^verbatim>\<open>for i in range(retries)\<close> from index \<open>i\<close> on. Each attempt takes the
  next backend outcome. When the range is empty the function falls off its end and
  returns \<^verbatim>\<open>None\<close>. The request headers are the same for every call of a run and
  are not part of the \<open>Post\<close> event.
\<close>

fun make_request_from ::
  "nat \<Rightarrow> nat \<Rightarrow> string \<Rightarrow> payload \<Rightarrow> outcome list
    \<Rightarrow> response option result \<times> event list \<times> outcome list" where
  "make_request_from retries i u p [] =
     (if i < retries then (Pending, [Post u p], []) else (Returned None, [], []))"
| "make_request_from retries i u p (oc # tr) =
     (if i < retries then
        (case post_checked oc of
           Inr r \<Rightarrow> (Returned (Some r), [Post u p], tr)
         | Inl e \<Rightarrow>
             if i < retries - 1 then
               (case make_request_from retries (i + 1) u p tr of
                  (res, evs, tr') \<Rightarrow>
                    (res, [Post u p, PrintAttemptFailed (i + 1) e, Sleep (2 ^ i)] @ evs, tr'))
             else (Raised e, [Post u p, PrintAttemptFailed (i + 1) e], tr))
      else (Returned None, [], oc # tr))"

definition make_request ::
  "string \<Rightarrow> payload \<Rightarrow> nat \<Rightarrow> outcome list
    \<Rightarrow> response option result \<times> event list \<times> outcome list" where
  "make_request u p retries tr = make_request_from retries 0 u p tr"

text \<open>The events of the failed attempts \<open>i + 1\<close>, \<open>i + 2\<close>, ... that are followed by
  another attempt.\<close>

fun retried :: "nat \<Rightarrow> string \<Rightarrow> payload \<Rightarrow> error list \<Rightarrow> event list" where
  "retried i u p [] = []"
| "retried i u p (e # es) =
     [Post u p, PrintAttemptFailed (i + 1) e, Sleep (2 ^ i)] @ retried (i + 1) u p es"

text \<open>The requests and the pauses of a run, in order.\<close>

definition posts :: "event list \<Rightarrow> (string \<times> payload) list" where
  "posts evs = concat (map (\<lambda>ev. case ev of Post u p \<Rightarrow> [(u, p)] | _ \<Rightarrow> []) evs)"


subsection \<open>The file-listing loop\<close>

definition url :: string where
  "url = ''https://api.dropboxapi.com/2/files/list_folder''"

definition continue_url :: string where
  "continue_url = ''https://api.dropboxapi.com/2/files/list_folder/continue''"

text \<open>\<^verbatim>\<open>data.get('entries', [])\<close> and \<^verbatim>\<open>data.get('has_more', False)\<close>.\<close>

definition get_entries :: "page \<Rightarrow> jobject list" where
  "get_entries data = (case entries data of None \<Rightarrow> [] | Some es \<Rightarrow> es)"

definition get_has_more :: "page \<Rightarrow> bool" where
  "get_has_more data = (case has_more data of None \<Rightarrow> False | Some b \<Rightarrow> b)"

text \<open>
  Lines 93-106, the \<^verbatim>\<open>while\<close> loop. \<open>Inr\<close> is the accumulated list when the loop
  ends; \<open>Inl\<close> is how the script ends inside the loop: \<^verbatim>\<open>data['cursor']\<close> raises
  \<^verbatim>\<open>KeyError\<close>, \<open>make_request\<close> raises, or the body is not JSON and the script
  calls \<^verbatim>\<open>exit(1)\<close>.
\<close>

function pagination_loop ::
  "page \<Rightarrow> jobject list \<Rightarrow> outcome list
    \<Rightarrow> (ending + jobject list) \<times> event list \<times> outcome list" where
  "pagination_loop data acc tr =
     (if get_has_more data then
        (case cursor data of
           None \<Rightarrow> (Inl (Uncaught (KeyError ''cursor'')), [], tr)
         | Some c \<Rightarrow>
             (case make_request continue_url (ListFolderContinue c) 3 tr of
                (Raised e, evs, tr') \<Rightarrow> (Inl (Uncaught e), evs, tr')
              | (Pending, evs, tr') \<Rightarrow> (Inl Waiting, evs, tr')
              | (Returned None, evs, tr') \<Rightarrow> (Inl (Uncaught AttributeError), evs, tr')
              | (Returned (Some r), evs, tr') \<Rightarrow>
                  (case json r of
                     None \<Rightarrow> (Inl (Exit 1), evs @ [PrintJsonError], tr')
                   | Some data' \<Rightarrow>
                       (case pagination_loop data' (acc @ get_entries data') tr' of
                          (res, evs', tr'') \<Rightarrow> (res, evs @ evs', tr'')))))
      else (Inr acc, [], tr))"
  by pat_completeness auto
termination
proof -
  have shorter: "fst (make_request_from n i u p t) = Returned (Some r)
      \<Longrightarrow> length (snd (snd (make_request_from n i u p t))) < length t"
    for n i u p t r
    by (induction n i u p t rule: make_request_from.induct)
      (auto split: if_splits sum.splits prod.splits)
  show ?thesis
  proof (relation "measure (\<lambda>(data, acc, tr). length tr)")
    show "wf (measure (\<lambda>(data, acc, tr). length tr))"
      by simp
  next
    fix data :: page and acc :: "jobject list" and tr :: "outcome list"
      and c x y x1 r xa ya data'
    assume "(x, y) = make_request continue_url (ListFolderContinue c) 3 tr"
      and "x = Returned x1" and "x1 = Some r" and "(xa, ya) = y"
    then have "make_request_from 3 0 continue_url (ListFolderContinue c) tr
        = (Returned (Some r), xa, ya)"
      by (simp add: make_request_def)
    with shorter [of 3 0 continue_url "ListFolderContinue c" tr r]
    show "((data', acc @ get_entries data', ya), data, acc, tr)
        \<in> measure (\<lambda>(data, acc, tr). length tr)"
      by simp
  qed
qed

declare pagination_loop.simps [simp del]

subsection \<open>The exporter\<close>

text \<open>Lines 114-116: the set of keys seen in the entries.\<close>

definition csv_headers :: "jobject list \<Rightarrow> string set" where
  "csv_headers es = fold (\<lambda>entry hs. hs \<union> set (map fst entry)) es {}"

text \<open>
  \<^verbatim>\<open>csv.DictWriter\<close> of the standard library with its defaults
  (\<^verbatim>\<open>restval=''\<close>, \<^verbatim>\<open>extrasaction='raise'\<close>): a row has one cell for each field
  name, the value of the key or \<^verbatim>\<open>''\<close> when the dict has no such key, and a dict with
  a key that is not a field name raises \<^verbatim>\<open>ValueError\<close>. A file is the list of the
  rows handed to the underlying writer; how a cell is quoted and printed is not modelled.
\<close>

definition dict_to_list :: "string list \<Rightarrow> jobject \<Rightarrow> error + jvalue list" where
  "dict_to_list fieldnames rowdict =
     (if \<exists>k \<in> set (map fst rowdict). k \<notin> set fieldnames then Inl ValueError
      else Inr (map (\<lambda>k. case map_of rowdict k of None \<Rightarrow> JStr '''' | Some v \<Rightarrow> v)
                 fieldnames))"

definition writeheader :: "string list \<Rightarrow> jvalue list list \<Rightarrow> jvalue list list" where
  "writeheader fieldnames file = file @ [map JStr fieldnames]"

text \<open>Lines 126-127: one \<^verbatim>\<open>writer.writerow(entry)\<close> for each entry.\<close>

fun write_rows ::
  "string list \<Rightarrow> jobject list \<Rightarrow> jvalue list list \<Rightarrow> error option \<times> jvalue list list" where
  "write_rows fieldnames [] file = (None, file)"
| "write_rows fieldnames (entry # es) file =
     (case dict_to_list fieldnames entry of
        Inl err \<Rightarrow> (Some err, file)
      | Inr row \<Rightarrow> write_rows fieldnames es (file @ [row]))"

text \<open>
  \<^verbatim>\<open>list(csv_headers)\<close> lists a set in an order Python does not specify: \<open>hs\<close> is
  such a listing of \<open>S\<close>.
\<close>

definition listing_of :: "string set \<Rightarrow> string list \<Rightarrow> bool" where
  "listing_of S hs = (distinct hs \<and> set hs = S)"

subsection \<open>The script\<close>

text \<open>
  A run of the script. Its inputs are the file system (path to contents), the two
  answers to the prompts that matter here, the order in which Python lists a set, and
  the backend outcomes. \<open>json_file\<close> is the array written by \<^verbatim>\<open>json.dump\<close>,
  \<open>csv_file\<close> the rows of the CSV file.
\<close>

record export_run =
  ending :: ending
  events :: "event list"
  json_file :: "jobject list option"
  csv_file :: "jvalue list list option"

text \<open>A run that ends before line 108 has written no file.\<close>

definition stopped :: "ending \<Rightarrow> event list \<Rightarrow> export_run" where
  "stopped e evs = \<lparr>ending = e, events = evs, json_file = None, csv_file = None\<rparr>"

text \<open>
  Lines 108-129: \<^verbatim>\<open>json.dump\<close> writes the accumulated entries, then the CSV file gets
  its header and its rows. A \<^verbatim>\<open>ValueError\<close> of a row ends the run after the JSON
  file and the rows before it are written.
\<close>

definition write_exports ::
  "(string set \<Rightarrow> string list) \<Rightarrow> jobject list \<Rightarrow> event list \<Rightarrow> export_run" where
  "write_exports order acc evs =
     (let fieldnames = order (csv_headers acc) in
      case write_rows fieldnames acc (writeheader fieldnames []) of
        (Some err, file) \<Rightarrow>
          \<lparr>ending = Uncaught err, events = evs, json_file = Some acc, csv_file = Some file\<rparr>
      | (None, file) \<Rightarrow>
          \<lparr>ending = Exit 0, events = evs @ [PrintExported], json_file = Some acc,
           csv_file = Some file\<rparr>)"

definition export_main ::
  "(string \<rightharpoonup> string) \<Rightarrow> string \<Rightarrow> string \<Rightarrow> (string set \<Rightarrow> string list)
    \<Rightarrow> outcome list \<Rightarrow> export_run" where
  "export_main fs token_file_path dropbox_folder_path order tr =
     (case fs token_file_path of
        None \<Rightarrow> stopped (Exit 1) [PrintFileNotFound token_file_path]
      | Some token_info \<Rightarrow>
          (case make_request url (ListFolder dropbox_folder_path) 3 tr of
             (Raised e, evs, tr') \<Rightarrow> stopped (Uncaught e) evs
           | (Pending, evs, tr') \<Rightarrow> stopped Waiting evs
           | (Returned None, evs, tr') \<Rightarrow> stopped (Uncaught AttributeError) evs
           | (Returned (Some r), evs, tr') \<Rightarrow>
               (case json r of
                  None \<Rightarrow> stopped (Exit 1) (evs @ [PrintJsonError])
                | Some data \<Rightarrow>
                    (case pagination_loop data (get_entries data) tr' of
                       (Inl e, evs', tr'') \<Rightarrow> stopped e (evs @ evs')
                     | (Inr acc, evs', tr'') \<Rightarrow> write_exports order acc (evs @ evs')))))"

section \<open>dropbox\_members\_listv2.py\<close>

definition members_url :: string where
  "members_url = ''https://api.dropboxapi.com/2/team/members/list_v2''"

text \<open>Lines 50-58: the request; the cursor is sent only when it is truthy
  (\<^verbatim>\<open>if cursor:\<close>), that is neither \<^verbatim>\<open>None\<close> nor the empty string.\<close>

definition members_request :: "bool \<Rightarrow> string option \<Rightarrow> event" where
  "members_request include_removed c =
     Post members_url
       (MembersList include_removed
          (case c of None \<Rightarrow> None | Some s \<Rightarrow> if s = [] then None else Some s))"

definition get_members_list :: "page \<Rightarrow> jobject list" where
  "get_members_list data = (case members data of None \<Rightarrow> [] | Some ms \<Rightarrow> ms)"

text \<open>
  Lines 58-67 of \<open>get_members\<close> on the outcome of its one call of
  \<^verbatim>\<open>requests.post\<close>: nothing is caught, a status other than 200 raises
  \<^verbatim>\<open>Exception\<close>, and a body that is not JSON raises in \<^verbatim>\<open>response.json()\<close>.
\<close>

fun get_members ::
  "bool \<Rightarrow> string option \<Rightarrow> outcome \<Rightarrow> error + (jobject list \<times> string option \<times> bool)" where
  "get_members include_removed c (Fails msg) = Inl (RequestException msg)"
| "get_members include_removed c (Responds r) =
     (if status_code r \<noteq> 200 then Inl (ApiRequestFailed (resp_text r))
      else (case json r of
              None \<Rightarrow> Inl JSONDecodeError
            | Some result \<Rightarrow> Inr (get_members_list result, cursor result, get_has_more result)))"

text \<open>Lines 120-122, the loop \<^verbatim>\<open>while has_more\<close>, from the state
  \<open>(all_members, cursor, has_more)\<close>.\<close>

fun members_loop ::
  "bool \<Rightarrow> jobject list \<Rightarrow> string option \<Rightarrow> bool \<Rightarrow> outcome list
    \<Rightarrow> (ending + jobject list) \<times> event list \<times> outcome list" where
  "members_loop include_removed all_members c False tr = (Inr all_members, [], tr)"
| "members_loop include_removed all_members c True [] =
     (Inl Waiting, [members_request include_removed c], [])"
| "members_loop include_removed all_members c True (oc # tr) =
     (case get_members include_removed c oc of
        Inl e \<Rightarrow> (Inl (Uncaught e), [members_request include_removed c], tr)
      | Inr (ms, c', hm) \<Rightarrow>
          (case members_loop include_removed (all_members @ ms) c' hm tr of
             (res, evs, tr') \<Rightarrow> (res, members_request include_removed c # evs, tr')))"

text \<open>
  A run of \<open>main\<close>. When the token file is missing \<open>main\<close> prints and returns, and the
  script ends normally, with status 0. \<open>exported\<close> is the list handed to
  \<open>export_to_csv\<close>; the rows that function formats from it are not modelled.
\<close>

record members_run =
  m_ending :: ending
  m_events :: "event list"
  exported :: "jobject list option"

definition members_main ::
  "(string \<rightharpoonup> string) \<Rightarrow> string \<Rightarrow> bool \<Rightarrow> outcome list \<Rightarrow> members_run" where
  "members_main fs token_file_path include_removed tr =
     (case fs token_file_path of
        None \<Rightarrow>
          \<lparr>m_ending = Exit 0, m_events = [PrintFileNotFound token_file_path], exported = None\<rparr>
      | Some token \<Rightarrow>
          (case members_loop include_removed [] None True tr of
             (Inl e, evs, tr') \<Rightarrow> \<lparr>m_ending = e, m_events = evs, exported = None\<rparr>
           | (Inr all_members, evs, tr') \<Rightarrow>
               \<lparr>m_ending = Exit 0, m_events = evs @ [PrintExported],
                exported = Some all_members\<rparr>))"

section \<open>dbox\_search\_account.py and dbox\_search\_list\_ids.py\<close>

text \<open>
  The metadata of a search match, as the Dropbox SDK types it: a file, a folder or a
  deleted item, each with a name and a lower-cased path.
\<close>

datatype entry =
    FileMetadata (name: string) (path_lower: string)
  | FolderMetadata (name: string) (path_lower: string)
  | DeletedMetadata (name: string) (path_lower: string)

fun is_folder :: "entry \<Rightarrow> bool" where
  "is_folder (FolderMetadata n p) = True"
| "is_folder e = False"

text \<open>
  The client object: of its state only the header \<^verbatim>\<open>Dropbox-API-Select-User\<close>
  matters. The SDK call \<^verbatim>\<open>files_search\<close> is not part of the repository; the
  backend is a parameter that gives, for the selected user, a folder path and a query,
  the matches or the error the call raises.
\<close>

record dropbox =
  select_user :: "string option"

type_synonym api = "string option \<Rightarrow> string \<Rightarrow> string \<Rightarrow> error + entry list"

definition files_search :: "api \<Rightarrow> dropbox \<Rightarrow> string \<Rightarrow> string \<Rightarrow> error + entry list" where
  "files_search backend dbx folder_path search_query =
     backend (select_user dbx) folder_path search_query"

text \<open>
  \<open>search_files_recursively\<close> of dbox\_search\_account.py. The writer is the list of
  the rows written so far. The first argument is the number of nested calls the
  interpreter still allows: when it is used up the call raises
  \<^verbatim>\<open>RecursionError\<close>. \<open>search_results\<close> is the \<^verbatim>\<open>for\<close> loop over the matches.
\<close>

fun search_files_recursively ::
    "nat \<Rightarrow> api \<Rightarrow> dropbox \<Rightarrow> string \<Rightarrow> string \<Rightarrow> string list list
      \<Rightarrow> error option \<times> string list list"
  and search_results ::
    "nat \<Rightarrow> api \<Rightarrow> dropbox \<Rightarrow> string \<Rightarrow> entry list \<Rightarrow> string list list
      \<Rightarrow> error option \<times> string list list" where
  "search_files_recursively 0 backend dbx search_query folder_path csv_writer =
     (Some RecursionError, csv_writer)"
| "search_files_recursively (Suc d) backend dbx search_query folder_path csv_writer =
     (case files_search backend dbx folder_path search_query of
        Inl e \<Rightarrow> (Some e, csv_writer)
      | Inr results \<Rightarrow> search_results d backend dbx search_query results csv_writer)"
| "search_results d backend dbx search_query [] csv_writer = (None, csv_writer)"
| "search_results d backend dbx search_query (entry # results) csv_writer =
     (if is_folder entry then
        (case search_files_recursively d backend dbx search_query (path_lower entry) csv_writer of
           (Some e, w) \<Rightarrow> (Some e, w)
         | (None, w) \<Rightarrow> search_results d backend dbx search_query results w)
      else search_results d backend dbx search_query results
             (csv_writer @ [[name entry, path_lower entry]]))"

text \<open>The same function in dbox\_search\_list\_ids.py, with the member id as third
  column.\<close>

fun search_files_recursively_ids ::
    "nat \<Rightarrow> api \<Rightarrow> dropbox \<Rightarrow> string \<Rightarrow> string \<Rightarrow> string \<Rightarrow> string list list
      \<Rightarrow> error option \<times> string list list"
  and search_results_ids ::
    "nat \<Rightarrow> api \<Rightarrow> dropbox \<Rightarrow> string \<Rightarrow> string \<Rightarrow> entry list \<Rightarrow> string list list
      \<Rightarrow> error option \<times> string list list" where
  "search_files_recursively_ids 0 backend dbx search_query dbmid folder_path csv_writer =
     (Some RecursionError, csv_writer)"
| "search_files_recursively_ids (Suc d) backend dbx search_query dbmid folder_path csv_writer =
     (case files_search backend dbx folder_path search_query of
        Inl e \<Rightarrow> (Some e, csv_writer)
      | Inr results \<Rightarrow> search_results_ids d backend dbx search_query dbmid results csv_writer)"
| "search_results_ids d backend dbx search_query dbmid [] csv_writer = (None, csv_writer)"
| "search_results_ids d backend dbx search_query dbmid (entry # results) csv_writer =
     (if is_folder entry then
        (case search_files_recursively_ids d backend dbx search_query dbmid (path_lower entry)
                csv_writer of
           (Some e, w) \<Rightarrow> (Some e, w)
         | (None, w) \<Rightarrow> search_results_ids d backend dbx search_query dbmid results w)
      else search_results_ids d backend dbx search_query dbmid results
             (csv_writer @ [[name entry, path_lower entry, dbmid]]))"

text \<open>A run of a search script: how it ends, what it prints, the rows of the CSV
  file.\<close>

record search_run =
  s_ending :: ending
  s_events :: "event list"
  s_csv :: "string list list option"

definition finish_search :: "error option \<times> string list list \<Rightarrow> search_run" where
  "finish_search res =
     (case res of
        (Some e, w) \<Rightarrow> \<lparr>s_ending = Uncaught e, s_events = [], s_csv = Some w\<rparr>
      | (None, w) \<Rightarrow> \<lparr>s_ending = Exit 0, s_events = [PrintCsvComplete], s_csv = Some w\<rparr>)"

text \<open>\<open>export_files_to_csv\<close> of dbox\_search\_account.py (lines 59-73).\<close>

definition export_files_to_csv ::
  "nat \<Rightarrow> api \<Rightarrow> string \<Rightarrow> string \<Rightarrow> search_run" where
  "export_files_to_csv depth backend selected_user search_query =
     (let dbx = \<lparr>select_user = None\<rparr>;
          dbx = dbx\<lparr>select_user := Some selected_user\<rparr>;
          csv_writer = [[''File Name'', ''Path'']]
      in finish_search
           (search_files_recursively depth backend dbx search_query '''' csv_writer))"

definition search_account_main ::
  "(string \<rightharpoonup> string) \<Rightarrow> string \<Rightarrow> string \<Rightarrow> string \<Rightarrow> nat \<Rightarrow> api \<Rightarrow> search_run" where
  "search_account_main fs token_file_path selected_user search_query depth backend =
     (case fs token_file_path of
        None \<Rightarrow>
          \<lparr>s_ending = Exit 1, s_events = [PrintFileNotFound token_file_path], s_csv = None\<rparr>
      | Some token \<Rightarrow> export_files_to_csv depth backend selected_user search_query)"

text \<open>
  dbox\_search\_list\_ids.py. Line 62: the column \<^verbatim>\<open>dbmid\<close> of the rows that
  \<^verbatim>\<open>csv.DictReader\<close> yields; a row without it raises \<^verbatim>\<open>KeyError\<close>.
\<close>

fun read_dbmids :: "(string \<times> string) list list \<Rightarrow> error + string list" where
  "read_dbmids [] = Inr []"
| "read_dbmids (row # rows) =
     (case map_of row ''dbmid'' of
        None \<Rightarrow> Inl (KeyError ''dbmid'')
      | Some v \<Rightarrow> (case read_dbmids rows of Inl e \<Rightarrow> Inl e | Inr vs \<Rightarrow> Inr (v # vs)))"

text \<open>Lines 72-77: for each member id, set the header on the shared client, then
  search.\<close>

fun search_each ::
  "nat \<Rightarrow> api \<Rightarrow> string \<Rightarrow> dropbox \<Rightarrow> string list \<Rightarrow> string list list
    \<Rightarrow> error option \<times> string list list" where
  "search_each depth backend search_query dbx [] csv_writer = (None, csv_writer)"
| "search_each depth backend search_query dbx (dbmid # dbmid_list) csv_writer =
     (let dbx' = dbx\<lparr>select_user := Some dbmid\<rparr> in
      case search_files_recursively_ids depth backend dbx' search_query dbmid '''' csv_writer of
        (Some e, w) \<Rightarrow> (Some e, w)
      | (None, w) \<Rightarrow> search_each depth backend search_query dbx' dbmid_list w)"

text \<open>\<open>export_files_to_csv\<close> of dbox\_search\_list\_ids.py (lines 60-80); \<open>csvs\<close> gives
  the rows \<^verbatim>\<open>csv.DictReader\<close> reads from a path.\<close>

definition export_files_to_csv_ids ::
  "nat \<Rightarrow> api \<Rightarrow> (string \<rightharpoonup> (string \<times> string) list list) \<Rightarrow> string \<Rightarrow> string
    \<Rightarrow> search_run" where
  "export_files_to_csv_ids depth backend csvs dbmid_file search_query =
     (case csvs dbmid_file of
        None \<Rightarrow>
          \<lparr>s_ending = Uncaught (FileNotFoundError dbmid_file), s_events = [], s_csv = None\<rparr>
      | Some rows \<Rightarrow>
          (case read_dbmids rows of
             Inl e \<Rightarrow> \<lparr>s_ending = Uncaught e, s_events = [], s_csv = None\<rparr>
           | Inr dbmid_list \<Rightarrow>
               finish_search
                 (search_each depth backend search_query \<lparr>select_user = None\<rparr> dbmid_list
                    [[''File Name'', ''Path'', ''Dropbox ID'']])))"

definition search_list_ids_main ::
  "(string \<rightharpoonup> string) \<Rightarrow> string \<Rightarrow> (string \<rightharpoonup> (string \<times> string) list list) \<Rightarrow> string
    \<Rightarrow> string \<Rightarrow> nat \<Rightarrow> api \<Rightarrow> search_run" where
  "search_list_ids_main fs token_file_path csvs dbmid_file search_query depth backend =
     (case fs token_file_path of
        None \<Rightarrow>
          \<lparr>s_ending = Exit 1, s_events = [PrintFileNotFound token_file_path], s_csv = None\<rparr>
      | Some token \<Rightarrow> export_files_to_csv_ids depth backend csvs dbmid_file search_query)"

section \<open>Backends that serve pages\<close>

text \<open>
  What the backend sends for one page of the file listing: fewer than three failures,
  then a response that \<open>make_request\<close> returns, whose body decodes to the page.
\<close>

type_synonym block = "outcome list \<times> response \<times> page"

definition block_trace :: "block \<Rightarrow> outcome list" where
  "block_trace b = (case b of (fails, r, pg) \<Rightarrow> fails @ [Responds r])"

definition block_page :: "block \<Rightarrow> page" where
  "block_page b = (case b of (fails, r, pg) \<Rightarrow> pg)"

definition block_ok :: "block \<Rightarrow> bool" where
  "block_ok b =
     (case b of (fails, r, pg) \<Rightarrow>
        length fails < 3 \<and> (\<forall>oc \<in> set fails. isl (post_checked oc))
        \<and> post_checked (Responds r) = Inr r \<and> json r = Some pg)"

text \<open>The pages that follow \<open>data\<close>: each page but the last says \<open>has_more\<close> and carries
  a cursor, the last does not say \<open>has_more\<close>.\<close>

fun chain :: "page \<Rightarrow> block list \<Rightarrow> bool" where
  "chain data [] = (\<not> get_has_more data)"
| "chain data (b # bs) =
     (get_has_more data \<and> cursor data \<noteq> None \<and> block_ok b \<and> chain (block_page b) bs)"

text \<open>The pages of the members list: each answered with status 200 and a JSON body;
  each page but the last says \<open>has_more\<close>.\<close>

fun members_chain :: "(response \<times> page) list \<Rightarrow> bool" where
  "members_chain [] = False"
| "members_chain ((r, pg) # ms) =
     (status_code r = 200 \<and> json r = Some pg
      \<and> (if ms = [] then \<not> get_has_more pg else get_has_more pg \<and> members_chain ms))"


section \<open>Folder trees\<close>

text \<open>
  A finite folder tree as the backend holds it: each node has a name and its lower-cased
  path; a folder has its children, in the order the backend lists them.
\<close>

datatype node = File string string | Folder string string "node list"

fun entry_of :: "node \<Rightarrow> entry" where
  "entry_of (File n p) = FileMetadata n p"
| "entry_of (Folder n p kids) = FolderMetadata n p"

text \<open>The nodes below a node, parents before children.\<close>

fun below :: "node \<Rightarrow> node list" where
  "below (File n p) = []"
| "below (Folder n p kids) = concat (map (\<lambda>k. k # below k) kids)"

fun height :: "node \<Rightarrow> nat" where
  "height (File n p) = 0"
| "height (Folder n p kids) = Suc (fold max (map height kids) 0)"

text \<open>
  The repository does not fix what \<^verbatim>\<open>files_search\<close> searches. \<open>Subtree\<close>: the matches
  are the nodes anywhere below the folder whose name matches the query. \<open>Children\<close>: the
  matches are the nodes directly in the folder whose name matches. The query is given by
  the predicate \<open>m\<close> on names.
\<close>

datatype scope = Subtree | Children

fun found :: "scope \<Rightarrow> (string \<Rightarrow> bool) \<Rightarrow> node list \<Rightarrow> entry list" where
  "found Subtree m kids =
     filter (\<lambda>e. m (name e)) (map entry_of (concat (map (\<lambda>k. k # below k) kids)))"
| "found Children m kids = filter (\<lambda>e. m (name e)) (map entry_of kids)"

text \<open>A search function answers for the folders of a tree.\<close>

fun serves :: "scope \<Rightarrow> (string \<Rightarrow> error + entry list) \<Rightarrow> (string \<Rightarrow> bool) \<Rightarrow> node \<Rightarrow> bool" where
  "serves sc srch m (File n p) = True"
| "serves sc srch m (Folder n p kids) =
     (srch p = Inr (found sc m kids) \<and> (\<forall>k \<in> set kids. serves sc srch m k))"

text \<open>The backend of a tree: it finds the folder with the given path and answers with
  its matches; a path that is no folder of the tree is an error.\<close>

definition tree_search :: "scope \<Rightarrow> (string \<Rightarrow> bool) \<Rightarrow> node \<Rightarrow> api" where
  "tree_search sc m root u p q =
     (case find (\<lambda>k. is_folder (entry_of k) \<and> path_lower (entry_of k) = p) (root # below root) of
        Some (Folder n p' kids) \<Rightarrow> Inr (found sc m kids)
      | _ \<Rightarrow> Inl (ApiError ''path/not_found''))"

text \<open>The files among some nodes whose name matches, as entries.\<close>

definition matching_files :: "(string \<Rightarrow> bool) \<Rightarrow> node list \<Rightarrow> entry list" where
  "matching_files m ns = filter (\<lambda>e. \<not> is_folder e \<and> m (name e)) (map entry_of ns)"

text \<open>The tree with the files \<^verbatim>\<open>a.txt\<close> and \<^verbatim>\<open>b/c.txt\<close>.\<close>

definition example_tree :: node where
  "example_tree =
     Folder '''' ''''
       [File ''a.txt'' ''/a.txt'', Folder ''b'' ''/b'' [File ''c.txt'' ''/b/c.txt'']]"

section \<open>Rows and matches\<close>

text \<open>A row of dbox\_search\_account.py that comes from a match that is not a folder.\<close>

definition match_row :: "api \<Rightarrow> dropbox \<Rightarrow> string \<Rightarrow> string list \<Rightarrow> bool" where
  "match_row b dbx q row =
     (\<exists>p es e. files_search b dbx p q = Inr es \<and> e \<in> set es \<and> \<not> is_folder e
        \<and> row = [name e, path_lower e])"

text \<open>The rows written by the search for one member id in dbox\_search\_list\_ids.py.\<close>

definition member_rows :: "nat \<Rightarrow> api \<Rightarrow> string \<Rightarrow> string \<Rightarrow> string list list" where
  "member_rows depth backend q dbmid =
     snd (search_files_recursively_ids depth backend \<lparr>select_user = Some dbmid\<rparr> q dbmid '''' [])"

section \<open>Retry\<close>

lemma posts_append: "posts (xs @ ys) = posts xs @ posts ys"
  by (simp add: posts_def)

lemma posts_retried: "length (posts (retried i u p errs)) = length errs"
  by (induction errs arbitrary: i) (simp_all add: posts_def)

lemma all_failures_errors:
  "\<forall>oc \<in> set fails. isl (post_checked oc)
    \<Longrightarrow> map post_checked fails = map Inl (map (projl \<circ> post_checked) fails)"
  by (induction fails) simp_all

lemma make_request_from_retry:
  assumes "i + length fails < retries"
    and "map post_checked fails = map Inl errs"
    and "post_checked ok = Inr r"
  shows "make_request_from retries i u p (fails @ ok # rest) =
           (Returned (Some r), retried i u p errs @ [Post u p], rest)"
  using assms
proof (induction fails arbitrary: i errs)
  case Nil
  then show ?case by simp
next
  case (Cons oc fails)
  from Cons.prems(2) obtain e errs' where errs: "errs = e # errs'"
    and oc: "post_checked oc = Inl e" and rest: "map post_checked fails = map Inl errs'"
    by (cases errs) auto
  from Cons.prems(1) have lt: "i < retries" "i < retries - 1" "(i + 1) + length fails < retries"
    by simp_all
  have "make_request_from retries (i + 1) u p (fails @ ok # rest) =
          (Returned (Some r), retried (i + 1) u p errs' @ [Post u p], rest)"
    by (rule Cons.IH [OF lt(3) rest Cons.prems(3)])
  with lt oc errs show ?case by simp
qed

text \<open>
  C3. When the backend answers with \<open>N\<close> failures (network failures or error statuses)
  and then a success, and \<open>N\<close> is less than the retry bound, \<open>make_request\<close> returns the
  response of the success: it does not raise, it has made \<open>N + 1\<close> requests, and it leaves
  the outcomes after the success untouched.
\<close>

theorem make_request_returns_first_success:
  assumes "length fails < retries"
    and "\<forall>oc \<in> set fails. isl (post_checked oc)"
    and "post_checked ok = Inr r"
  shows "fst (make_request u p retries (fails @ ok # rest)) = Returned (Some r)
       \<and> snd (snd (make_request u p retries (fails @ ok # rest))) = rest
       \<and> length (posts (fst (snd (make_request u p retries (fails @ ok # rest)))))
           = length fails + 1"
proof -
  define errs where "errs = map (projl \<circ> post_checked) fails"
  from assms(2) have m: "map post_checked fails = map Inl errs"
    unfolding errs_def by (rule all_failures_errors)
  have len: "length errs = length fails"
    by (simp add: errs_def)
  from assms(1) have "0 + length fails < retries" by simp
  from make_request_from_retry [OF this m assms(3)]
  have "make_request u p retries (fails @ ok # rest) =
          (Returned (Some r), retried 0 u p errs @ [Post u p], rest)"
    by (simp add: make_request_def)
  then show ?thesis
    by (simp add: posts_append posts_retried len) (simp add: posts_def)
qed

theorem make_request_returns_first_success_witness:
  "fst (make_request ''u'' (ListFolder '''') 3
      ([Fails ''timeout'', Responds \<lparr>status_code = 503, resp_text = '''', json = None\<rparr>]
        @ Responds \<lparr>status_code = 200, resp_text = '''', json = None\<rparr> # []))
     = Returned (Some \<lparr>status_code = 200, resp_text = '''', json = None\<rparr>)"
  using make_request_returns_first_success
    [of "[Fails ''timeout'', Responds \<lparr>status_code = 503, resp_text = '''', json = None\<rparr>]"
        3 "Responds \<lparr>status_code = 200, resp_text = '''', json = None\<rparr>"
        "\<lparr>status_code = 200, resp_text = '''', json = None\<rparr>" "''u''" "ListFolder ''''" "[]"]
  by simp







lemma posts_retried_eq: "posts (retried i u p errs) = replicate (length errs) (u, p)"
  by (induction errs arbitrary: i) (simp_all add: posts_def)





section \<open>Pagination\<close>

lemma block_request:
  assumes "block_ok (fails, r, pg)"
  shows "make_request u p 3 (fails @ Responds r # rest) =
           (Returned (Some r),
            retried 0 u p (map (projl \<circ> post_checked) fails) @ [Post u p], rest)"
proof -
  from assms have len: "0 + length fails < 3"
    and fl: "\<forall>oc \<in> set fails. isl (post_checked oc)"
    and ok: "post_checked (Responds r) = Inr r"
    by (simp_all add: block_ok_def)
  from make_request_from_retry [OF len all_failures_errors [OF fl] ok]
  show ?thesis by (simp add: make_request_def)
qed

lemma pagination_loop_chain:
  "chain data bs \<Longrightarrow>
     fst (pagination_loop data acc (concat (map block_trace bs) @ rest))
       = Inr (acc @ concat (map (\<lambda>b. get_entries (block_page b)) bs))
     \<and> snd (snd (pagination_loop data acc (concat (map block_trace bs) @ rest))) = rest"
proof (induction bs arbitrary: data acc)
  case Nil
  then show ?case
    by (subst (1 2) pagination_loop.simps) simp
next
  case (Cons b bs)
  obtain fails r pg where b: "b = (fails, r, pg)"
    by (cases b) auto
  from Cons.prems b obtain c where more: "get_has_more data" and c: "cursor data = Some c"
    and ok: "block_ok (fails, r, pg)" and ch: "chain pg bs"
    by (auto simp: block_page_def)
  from ok have js: "json r = Some pg"
    by (simp add: block_ok_def)
  let ?tr = "concat (map block_trace bs) @ rest"
  have req: "make_request continue_url (ListFolderContinue c) 3 (fails @ Responds r # ?tr) =
      (Returned (Some r),
       retried 0 continue_url (ListFolderContinue c) (map (projl \<circ> post_checked) fails)
         @ [Post continue_url (ListFolderContinue c)], ?tr)"
    by (rule block_request [OF ok])
  have step: "pagination_loop data acc (concat (map block_trace (b # bs)) @ rest) =
      (case pagination_loop pg (acc @ get_entries pg) ?tr of
         (res, evs', tr'') \<Rightarrow>
           (res, (retried 0 continue_url (ListFolderContinue c)
                    (map (projl \<circ> post_checked) fails)
                  @ [Post continue_url (ListFolderContinue c)]) @ evs', tr''))"
    by (subst pagination_loop.simps) (simp add: b block_trace_def more c req js)
  from Cons.IH [OF ch, of "acc @ get_entries pg"]
  obtain evs where "pagination_loop pg (acc @ get_entries pg) ?tr =
      (Inr (acc @ get_entries pg @ concat (map (\<lambda>b. get_entries (block_page b)) bs)), evs, rest)"
    by (cases "pagination_loop pg (acc @ get_entries pg) ?tr") auto
  then show ?case
    unfolding step by (simp add: b block_page_def)
qed

lemma members_loop_chain:
  "members_chain ms \<Longrightarrow>
     fst (members_loop ir acc c True (map (\<lambda>m. Responds (fst m)) ms @ rest))
       = Inr (acc @ concat (map (\<lambda>m. get_members_list (snd m)) ms))
     \<and> snd (snd (members_loop ir acc c True (map (\<lambda>m. Responds (fst m)) ms @ rest))) = rest"
proof (induction ms arbitrary: acc c)
  case Nil
  then show ?case by simp
next
  case (Cons m ms)
  obtain r pg where m: "m = (r, pg)"
    by (cases m) auto
  from Cons.prems m have ok: "status_code r = 200" "json r = Some pg"
    by simp_all
  show ?case
  proof (cases "ms = []")
    case True
    with Cons.prems m have "\<not> get_has_more pg" by simp
    with True ok m show ?thesis by (simp split: prod.splits)
  next
    case False
    with Cons.prems m have more: "get_has_more pg" and ch: "members_chain ms"
      by simp_all
    from Cons.IH [OF ch, of "acc @ get_members_list pg" "cursor pg"]
    obtain evs where
      "members_loop ir (acc @ get_members_list pg) (cursor pg) True
         (map (\<lambda>m. Responds (fst m)) ms @ rest) =
       (Inr (acc @ get_members_list pg @ concat (map (\<lambda>m. get_members_list (snd m)) ms)), evs, rest)"
      by (cases "members_loop ir (acc @ get_members_list pg) (cursor pg) True
                   (map (\<lambda>m. Responds (fst m)) ms @ rest)") auto
    with more ok m show ?thesis by simp
  qed
qed

lemma write_exports_json: "json_file (write_exports order acc evs) = Some acc"
  by (simp add: write_exports_def Let_def split: prod.splits option.splits)

lemma write_exports_posts: "posts (events (write_exports order acc evs)) = posts evs"
  by (simp add: write_exports_def Let_def posts_append split: prod.splits option.splits)
    (simp add: posts_def)

lemma export_main_chain:
  assumes tok: "fs token_file_path \<noteq> None"
    and ok: "block_ok b"
    and ch: "chain (block_page b) bs"
  shows "json_file (export_main fs token_file_path folder order
            (concat (map block_trace (b # bs)) @ rest))
          = Some (concat (map (\<lambda>b. get_entries (block_page b)) (b # bs)))"
proof -
  obtain fails r pg where b: "b = (fails, r, pg)"
    by (cases b) auto
  from ok b have js: "json r = Some pg"
    by (simp add: block_ok_def)
  let ?tr = "concat (map block_trace bs) @ rest"
  have req: "make_request url (ListFolder folder) 3 (fails @ Responds r # ?tr) =
      (Returned (Some r),
       retried 0 url (ListFolder folder) (map (projl \<circ> post_checked) fails)
         @ [Post url (ListFolder folder)], ?tr)"
    using ok unfolding b by (rule block_request)
  from ch b have "chain pg bs"
    by (simp add: block_page_def)
  from pagination_loop_chain [OF this, of "get_entries pg" rest]
  obtain evs where "pagination_loop pg (get_entries pg) ?tr =
      (Inr (get_entries pg @ concat (map (\<lambda>b. get_entries (block_page b)) bs)), evs, rest)"
    by (cases "pagination_loop pg (get_entries pg) ?tr") auto
  with tok req js show ?thesis
    by (auto simp: export_main_def b block_trace_def block_page_def write_exports_json)
qed

lemma members_main_chain:
  assumes tok: "fs token_file_path \<noteq> None"
    and ch: "members_chain ms"
  shows "exported (members_main fs token_file_path ir (map (\<lambda>m. Responds (fst m)) ms @ rest))
          = Some (concat (map (\<lambda>m. get_members_list (snd m)) ms))"
proof -
  from members_loop_chain [OF ch, of ir "[]" None rest]
  obtain evs where "members_loop ir [] None True (map (\<lambda>m. Responds (fst m)) ms @ rest) =
      (Inr (concat (map (\<lambda>m. get_members_list (snd m)) ms)), evs, rest)"
    by (cases "members_loop ir [] None True (map (\<lambda>m. Responds (fst m)) ms @ rest)") auto
  with tok show ?thesis
    by (auto simp: members_main_def)
qed

lemma count_list_concat:
  "count_list (concat xss) x = sum_list (map (\<lambda>xs. count_list xs x) xss)"
  by (induction xss) simp_all


text \<open>
  C1, as the code has it. When every page arrives (each request of the file listing after
  fewer than three failures, each request of the members list at once with status 200),
  the accumulated sequence is the concatenation of the pages' record lists, in the order
  the pages were received and with each page's records in their order. Nothing is
  removed: a record occurs in the result as often as it occurs on all the pages together.
\<close>

theorem paginated_fetch_concatenates_pages:
  "(fs token_file_path \<noteq> None \<and> block_ok b \<and> chain (block_page b) bs \<longrightarrow>
      json_file (export_main fs token_file_path folder order
                   (concat (map block_trace (b # bs)) @ rest))
        = Some (concat (map (\<lambda>b. get_entries (block_page b)) (b # bs)))
      \<and> count_list (the (json_file (export_main fs token_file_path folder order
                   (concat (map block_trace (b # bs)) @ rest)))) x
        = sum_list (map (\<lambda>b. count_list (get_entries (block_page b)) x) (b # bs)))
   \<and> (fs token_file_path \<noteq> None \<and> members_chain ms \<longrightarrow>
      exported (members_main fs token_file_path ir (map (\<lambda>m. Responds (fst m)) ms @ rest))
        = Some (concat (map (\<lambda>m. get_members_list (snd m)) ms))
      \<and> count_list (the (exported (members_main fs token_file_path ir
                   (map (\<lambda>m. Responds (fst m)) ms @ rest)))) x
        = sum_list (map (\<lambda>m. count_list (get_members_list (snd m)) x) ms))"
proof -
  have cnt: "count_list (concat (map f ys)) x = sum_list (map (\<lambda>y. count_list (f y) x) ys)"
    for f :: "'b \<Rightarrow> jobject list" and ys
    by (simp add: count_list_concat comp_def)
  have export: "fs token_file_path \<noteq> None \<and> block_ok b \<and> chain (block_page b) bs \<longrightarrow>
      json_file (export_main fs token_file_path folder order
                   (concat (map block_trace (b # bs)) @ rest))
        = Some (concat (map (\<lambda>b. get_entries (block_page b)) (b # bs)))
      \<and> count_list (the (json_file (export_main fs token_file_path folder order
                   (concat (map block_trace (b # bs)) @ rest)))) x
        = sum_list (map (\<lambda>b. count_list (get_entries (block_page b)) x) (b # bs))"
  proof (intro impI)
    assume "fs token_file_path \<noteq> None \<and> block_ok b \<and> chain (block_page b) bs"
    then have "json_file (export_main fs token_file_path folder order
                   (concat (map block_trace (b # bs)) @ rest))
        = Some (concat (map (\<lambda>b. get_entries (block_page b)) (b # bs)))"
      using export_main_chain by blast
    then show "json_file (export_main fs token_file_path folder order
                   (concat (map block_trace (b # bs)) @ rest))
        = Some (concat (map (\<lambda>b. get_entries (block_page b)) (b # bs)))
      \<and> count_list (the (json_file (export_main fs token_file_path folder order
                   (concat (map block_trace (b # bs)) @ rest)))) x
        = sum_list (map (\<lambda>b. count_list (get_entries (block_page b)) x) (b # bs))"
      by (simp only: option.sel cnt)
  qed
  have members: "fs token_file_path \<noteq> None \<and> members_chain ms \<longrightarrow>
      exported (members_main fs token_file_path ir (map (\<lambda>m. Responds (fst m)) ms @ rest))
        = Some (concat (map (\<lambda>m. get_members_list (snd m)) ms))
      \<and> count_list (the (exported (members_main fs token_file_path ir
                   (map (\<lambda>m. Responds (fst m)) ms @ rest)))) x
        = sum_list (map (\<lambda>m. count_list (get_members_list (snd m)) x) ms)"
  proof (intro impI)
    assume "fs token_file_path \<noteq> None \<and> members_chain ms"
    then have "exported (members_main fs token_file_path ir
                   (map (\<lambda>m. Responds (fst m)) ms @ rest))
        = Some (concat (map (\<lambda>m. get_members_list (snd m)) ms))"
      using members_main_chain by blast
    then show "exported (members_main fs token_file_path ir
                   (map (\<lambda>m. Responds (fst m)) ms @ rest))
        = Some (concat (map (\<lambda>m. get_members_list (snd m)) ms))
      \<and> count_list (the (exported (members_main fs token_file_path ir
                   (map (\<lambda>m. Responds (fst m)) ms @ rest)))) x
        = sum_list (map (\<lambda>m. count_list (get_members_list (snd m)) x) ms)"
      by (simp only: option.sel cnt)
  qed
  from export members show ?thesis by (rule conjI)
qed

theorem paginated_fetch_concatenates_pages_witness:
  "json_file (export_main [''token.txt'' \<mapsto> ''t''] ''token.txt'' '''' (\<lambda>S. [''id''])
      [Responds \<lparr>status_code = 200, resp_text = '''',
         json = Some \<lparr>entries = Some [[(''id'', JStr ''1'')], [(''id'', JStr ''2'')]],
                       members = None, cursor = Some ''c1'', has_more = Some True\<rparr>\<rparr>,
       Fails ''timeout'',
       Responds \<lparr>status_code = 200, resp_text = '''',
         json = Some \<lparr>entries = Some [[(''id'', JStr ''3'')]],
                       members = None, cursor = None, has_more = Some False\<rparr>\<rparr>])
     = Some [[(''id'', JStr ''1'')], [(''id'', JStr ''2'')], [(''id'', JStr ''3'')]]
   \<and> exported (members_main [''token.txt'' \<mapsto> ''t''] ''token.txt'' False
      [Responds \<lparr>status_code = 200, resp_text = '''',
         json = Some \<lparr>entries = None, members = Some [[(''id'', JStr ''1'')]],
                       cursor = Some ''c1'', has_more = Some True\<rparr>\<rparr>,
       Responds \<lparr>status_code = 200, resp_text = '''',
         json = Some \<lparr>entries = None, members = Some [[(''id'', JStr ''2'')]],
                       cursor = None, has_more = None\<rparr>\<rparr>])
     = Some [[(''id'', JStr ''1'')], [(''id'', JStr ''2'')]]"
  using paginated_fetch_concatenates_pages
    [of "[''token.txt'' \<mapsto> ''t'']" "''token.txt''"
        "([], \<lparr>status_code = 200, resp_text = '''',
               json = Some \<lparr>entries = Some [[(''id'', JStr ''1'')], [(''id'', JStr ''2'')]],
                             members = None, cursor = Some ''c1'', has_more = Some True\<rparr>\<rparr>,
          \<lparr>entries = Some [[(''id'', JStr ''1'')], [(''id'', JStr ''2'')]],
            members = None, cursor = Some ''c1'', has_more = Some True\<rparr>)"
        "[([Fails ''timeout''], \<lparr>status_code = 200, resp_text = '''',
               json = Some \<lparr>entries = Some [[(''id'', JStr ''3'')]],
                             members = None, cursor = None, has_more = Some False\<rparr>\<rparr>,
          \<lparr>entries = Some [[(''id'', JStr ''3'')]],
            members = None, cursor = None, has_more = Some False\<rparr>)]"
        "''''" "\<lambda>S. [''id'']" "[]" "[(''id'', JStr ''1'')]"
        "[(\<lparr>status_code = 200, resp_text = '''',
               json = Some \<lparr>entries = None, members = Some [[(''id'', JStr ''1'')]],
                             cursor = Some ''c1'', has_more = Some True\<rparr>\<rparr>,
           \<lparr>entries = None, members = Some [[(''id'', JStr ''1'')]],
             cursor = Some ''c1'', has_more = Some True\<rparr>),
          (\<lparr>status_code = 200, resp_text = '''',
               json = Some \<lparr>entries = None, members = Some [[(''id'', JStr ''2'')]],
                             cursor = None, has_more = None\<rparr>\<rparr>,
           \<lparr>entries = None, members = Some [[(''id'', JStr ''2'')]],
             cursor = None, has_more = None\<rparr>)]"
        False]
  by (simp add: block_ok_def block_page_def block_trace_def get_has_more_def get_entries_def
      get_members_list_def)

text \<open>
  C1 as stated fails: the loops do not remove duplicates. When two pages carry the same
  record, the accumulated sequence holds it twice.
\<close>

theorem repeated_record_is_kept:
  "json_file (export_main [''token.txt'' \<mapsto> ''t''] ''token.txt'' '''' (\<lambda>S. [''id''])
      [Responds \<lparr>status_code = 200, resp_text = '''',
         json = Some \<lparr>entries = Some [[(''id'', JStr ''1'')]],
                       members = None, cursor = Some ''c1'', has_more = Some True\<rparr>\<rparr>,
       Responds \<lparr>status_code = 200, resp_text = '''',
         json = Some \<lparr>entries = Some [[(''id'', JStr ''1'')]],
                       members = None, cursor = None, has_more = Some False\<rparr>\<rparr>])
     = Some [[(''id'', JStr ''1'')], [(''id'', JStr ''1'')]]
   \<and> exported (members_main [''token.txt'' \<mapsto> ''t''] ''token.txt'' False
      [Responds \<lparr>status_code = 200, resp_text = '''',
         json = Some \<lparr>entries = None, members = Some [[(''id'', JStr ''1'')]],
                       cursor = Some ''c1'', has_more = Some True\<rparr>\<rparr>,
       Responds \<lparr>status_code = 200, resp_text = '''',
         json = Some \<lparr>entries = None, members = Some [[(''id'', JStr ''1'')]],
                       cursor = None, has_more = Some False\<rparr>\<rparr>])
     = Some [[(''id'', JStr ''1'')], [(''id'', JStr ''1'')]]"
  by (simp add: export_main_def make_request_def pagination_loop.simps get_has_more_def
      get_entries_def write_exports_json members_main_def get_members_list_def)

text \<open>
  C2. When the first page does not say \<open>has_more\<close>, the run keeps exactly the records of
  that page, in their order: the list under the page's key \<^verbatim>\<open>entries\<close> in the file
  export, the list under its key \<^verbatim>\<open>members\<close> in the members export, and the empty
  list when the page has no such key. Every request the run has made is the first
  request: the file export posts the listing request only (once for each attempt), the
  members export posts one request without a cursor.
\<close>

theorem first_page_without_more:
  "(fs token_file_path \<noteq> None \<and> block_ok (fails, r, pg) \<and> \<not> get_has_more pg \<longrightarrow>
      json_file (export_main fs token_file_path folder order (fails @ Responds r # rest))
        = Some (get_entries pg)
      \<and> (entries pg = Some es \<longrightarrow>
           json_file (export_main fs token_file_path folder order (fails @ Responds r # rest))
             = Some es)
      \<and> (entries pg = None \<longrightarrow>
           json_file (export_main fs token_file_path folder order (fails @ Responds r # rest))
             = Some [])
      \<and> posts (events (export_main fs token_file_path folder order (fails @ Responds r # rest)))
        = replicate (length fails + 1) (url, ListFolder folder))
   \<and> (fs token_file_path \<noteq> None \<and> status_code r = 200 \<and> json r = Some pg
        \<and> \<not> get_has_more pg \<longrightarrow>
      exported (members_main fs token_file_path ir (Responds r # rest))
        = Some (get_members_list pg)
      \<and> (members pg = Some ms \<longrightarrow>
           exported (members_main fs token_file_path ir (Responds r # rest)) = Some ms)
      \<and> (members pg = None \<longrightarrow>
           exported (members_main fs token_file_path ir (Responds r # rest)) = Some [])
      \<and> posts (m_events (members_main fs token_file_path ir (Responds r # rest)))
        = [(members_url, MembersList ir None)])"
proof -
  have pinned_entries: "(entries pg = Some es \<longrightarrow> get_entries pg = es)
      \<and> (entries pg = None \<longrightarrow> get_entries pg = [])"
    by (simp add: get_entries_def)
  have pinned_members: "(members pg = Some ms \<longrightarrow> get_members_list pg = ms)
      \<and> (members pg = None \<longrightarrow> get_members_list pg = [])"
    by (simp add: get_members_list_def)
  have export: "json_file (export_main fs token_file_path folder order (fails @ Responds r # rest))
        = Some (get_entries pg)
      \<and> posts (events (export_main fs token_file_path folder order (fails @ Responds r # rest)))
        = replicate (length fails + 1) (url, ListFolder folder)"
    if tok: "fs token_file_path \<noteq> None" and ok: "block_ok (fails, r, pg)"
      and last: "\<not> get_has_more pg"
  proof -
    let ?evs = "retried 0 url (ListFolder folder) (map (projl \<circ> post_checked) fails)
         @ [Post url (ListFolder folder)]"
    have req: "make_request url (ListFolder folder) 3 (fails @ Responds r # rest) =
        (Returned (Some r), ?evs, rest)"
      by (rule block_request [OF ok])
    from ok have js: "json r = Some pg"
      by (simp add: block_ok_def)
    from last have loop: "pagination_loop pg (get_entries pg) rest = (Inr (get_entries pg), [], rest)"
      by (subst pagination_loop.simps) simp
    from tok req js loop
    have run: "export_main fs token_file_path folder order (fails @ Responds r # rest) =
        write_exports order (get_entries pg) ?evs"
      by (auto simp: export_main_def)
    have "posts ?evs = replicate (length fails + 1) (url, ListFolder folder)"
      by (simp add: posts_append posts_retried_eq) (simp add: posts_def replicate_append_same)
    then show ?thesis
      by (simp only: run write_exports_json write_exports_posts)
  qed
  have members: "exported (members_main fs token_file_path ir (Responds r # rest))
        = Some (get_members_list pg)
      \<and> posts (m_events (members_main fs token_file_path ir (Responds r # rest)))
        = [(members_url, MembersList ir None)]"
    if "fs token_file_path \<noteq> None" and "status_code r = 200" and "json r = Some pg"
      and "\<not> get_has_more pg"
    using that by (auto simp: members_main_def members_request_def posts_def)
  from export members pinned_entries pinned_members show ?thesis
    by (intro conjI impI) (elim conjE, simp)+
qed

theorem first_page_without_more_witness:
  "json_file (export_main [''token.txt'' \<mapsto> ''t''] ''token.txt'' '''' (\<lambda>S. [''id''])
      ([Fails ''timeout''] @
       Responds \<lparr>status_code = 200, resp_text = '''',
         json = Some \<lparr>entries = Some [[(''id'', JStr ''1'')], [(''id'', JStr ''2'')]],
                       members = Some [[(''email'', JStr ''x@y.z'')], [(''email'', JStr ''u@v.w'')]],
                       cursor = Some ''c1'', has_more = Some False\<rparr>\<rparr> # []))
     = Some [[(''id'', JStr ''1'')], [(''id'', JStr ''2'')]]
   \<and> exported (members_main [''token.txt'' \<mapsto> ''t''] ''token.txt'' True
      (Responds \<lparr>status_code = 200, resp_text = '''',
         json = Some \<lparr>entries = Some [[(''id'', JStr ''1'')], [(''id'', JStr ''2'')]],
                       members = Some [[(''email'', JStr ''x@y.z'')], [(''email'', JStr ''u@v.w'')]],
                       cursor = Some ''c1'', has_more = Some False\<rparr>\<rparr> # []))
     = Some [[(''email'', JStr ''x@y.z'')], [(''email'', JStr ''u@v.w'')]]
   \<and> posts (m_events (members_main [''token.txt'' \<mapsto> ''t''] ''token.txt'' True
      (Responds \<lparr>status_code = 200, resp_text = '''',
         json = Some \<lparr>entries = Some [[(''id'', JStr ''1'')], [(''id'', JStr ''2'')]],
                       members = Some [[(''email'', JStr ''x@y.z'')], [(''email'', JStr ''u@v.w'')]],
                       cursor = Some ''c1'', has_more = Some False\<rparr>\<rparr> # [])))
     = [(members_url, MembersList True None)]"
  using first_page_without_more
    [of "[''token.txt'' \<mapsto> ''t'']" "''token.txt''" "[Fails ''timeout'']"
        "\<lparr>status_code = 200, resp_text = '''',
         json = Some \<lparr>entries = Some [[(''id'', JStr ''1'')], [(''id'', JStr ''2'')]],
                       members = Some [[(''email'', JStr ''x@y.z'')], [(''email'', JStr ''u@v.w'')]],
                       cursor = Some ''c1'', has_more = Some False\<rparr>\<rparr>"
        "\<lparr>entries = Some [[(''id'', JStr ''1'')], [(''id'', JStr ''2'')]],
                       members = Some [[(''email'', JStr ''x@y.z'')], [(''email'', JStr ''u@v.w'')]],
                       cursor = Some ''c1'', has_more = Some False\<rparr>"
        "''''" "\<lambda>S. [''id'']" "[]"
        "[[(''id'', JStr ''1'')], [(''id'', JStr ''2'')]]" True
        "[[(''email'', JStr ''x@y.z'')], [(''email'', JStr ''u@v.w'')]]"]
  by (simp add: block_ok_def get_has_more_def get_entries_def get_members_list_def)


section \<open>Missing token file\<close>

text \<open>
  C6 at a run whose token file does not exist. Every script prints the message. The
  members script then returns from \<open>main\<close> and the process ends with status 0; the other
  three scripts call \<^verbatim>\<open>exit(1)\<close>.
\<close>

theorem members_main_missing_token_exits_zero:
  "members_main Map.empty ''token.txt'' False [] =
     \<lparr>m_ending = Exit 0, m_events = [PrintFileNotFound ''token.txt''], exported = None\<rparr>
   \<and> exit_status (m_ending (members_main Map.empty ''token.txt'' False [])) = Some 0
   \<and> export_main Map.empty ''token.txt'' '''' (\<lambda>S. []) [] =
        stopped (Exit 1) [PrintFileNotFound ''token.txt'']
   \<and> search_account_main Map.empty ''token.txt'' ''user'' ''query'' 1000 (\<lambda>u p q. Inr []) =
        \<lparr>s_ending = Exit 1, s_events = [PrintFileNotFound ''token.txt''], s_csv = None\<rparr>
   \<and> search_list_ids_main Map.empty ''token.txt'' Map.empty ''ids.csv'' ''query'' 1000
        (\<lambda>u p q. Inr []) =
        \<lparr>s_ending = Exit 1, s_events = [PrintFileNotFound ''token.txt''], s_csv = None\<rparr>"
  by (simp add: members_main_def export_main_def search_account_main_def
      search_list_ids_main_def)

section \<open>Export\<close>

lemma csv_headers_fold:
  "fold (\<lambda>entry hs. hs \<union> set (map fst entry)) es S = S \<union> (\<Union>e \<in> set es. fst ` set e)"
  by (induction es arbitrary: S) auto

lemma csv_headers_union: "csv_headers es = (\<Union>e \<in> set es. fst ` set e)"
  unfolding csv_headers_def csv_headers_fold by simp

lemma write_rows_all:
  "\<forall>e \<in> set es. fst ` set e \<subseteq> set hs \<Longrightarrow>
     write_rows hs es out =
       (None, out @ map (\<lambda>e. map (\<lambda>k. case map_of e k of None \<Rightarrow> JStr '''' | Some v \<Rightarrow> v) hs) es)"
proof (induction es arbitrary: out)
  case Nil
  then show ?case by simp
next
  case (Cons e es)
  from Cons.prems have "\<not> (\<exists>k \<in> set (map fst e). k \<notin> set hs)"
    by auto
  then have "dict_to_list hs e =
      Inr (map (\<lambda>k. case map_of e k of None \<Rightarrow> JStr '''' | Some v \<Rightarrow> v) hs)"
    by (simp only: dict_to_list_def if_False)
  moreover from Cons.prems have "\<forall>e \<in> set es. fst ` set e \<subseteq> set hs"
    by simp
  ultimately show ?case
    by (simp add: Cons.IH)
qed

lemma write_exports_listing:
  assumes "listing_of (csv_headers es) (order (csv_headers es))"
  shows "write_exports order es evs =
           \<lparr>ending = Exit 0, events = evs @ [PrintExported], json_file = Some es,
            csv_file = Some (map JStr (order (csv_headers es))
              # map (\<lambda>e. map (\<lambda>k. case map_of e k of None \<Rightarrow> JStr '''' | Some v \<Rightarrow> v)
                            (order (csv_headers es))) es)\<rparr>"
proof -
  let ?hs = "order (csv_headers es)"
  from assms have "set ?hs = (\<Union>e \<in> set es. fst ` set e)"
    by (simp add: listing_of_def csv_headers_union)
  then have "\<forall>e \<in> set es. fst ` set e \<subseteq> set ?hs"
    by blast
  from write_rows_all [where es = es and hs = ?hs and out = "writeheader ?hs []", OF this]
  show ?thesis
    by (simp add: write_exports_def Let_def writeheader_def)
qed

text \<open>
  C8. Whatever the order in which Python lists the set of keys, the CSV file starts with
  a header row that holds each key seen in the records exactly once, followed by one row
  for each record, in the order of the records; the cell of a field is the record's value
  for it, and the empty string when the record has no such key. No row raises
  \<^verbatim>\<open>ValueError\<close>, and the export ends normally.
\<close>

theorem csv_export_union_of_keys:
  assumes "listing_of (csv_headers es) (order (csv_headers es))"
  shows "csv_file (write_exports order es evs) =
           Some (map JStr (order (csv_headers es))
             # map (\<lambda>e. map (\<lambda>k. case map_of e k of None \<Rightarrow> JStr '''' | Some v \<Rightarrow> v)
                           (order (csv_headers es))) es)
       \<and> set (order (csv_headers es)) = (\<Union>e \<in> set es. fst ` set e)
       \<and> distinct (order (csv_headers es))
       \<and> ending (write_exports order es evs) = Exit 0"
proof -
  from assms have "set (order (csv_headers es)) = (\<Union>e \<in> set es. fst ` set e)"
    and "distinct (order (csv_headers es))"
    by (simp_all add: listing_of_def csv_headers_union)
  then show ?thesis
    by (simp add: write_exports_listing [where es = es and order = order, OF assms])
qed

theorem csv_export_union_of_keys_witness:
  "csv_file (write_exports (\<lambda>S. [''size'', ''name''])
      [[(''name'', JStr ''a.txt''), (''size'', JNum 3)], [(''name'', JStr ''b'')]] []) =
     Some [[JStr ''size'', JStr ''name''],
           [JNum 3, JStr ''a.txt''],
           [JStr '''', JStr ''b'']]"
  using csv_export_union_of_keys
    [of "[[(''name'', JStr ''a.txt''), (''size'', JNum 3)], [(''name'', JStr ''b'')]]"
        "\<lambda>S. [''size'', ''name'']" "[]"]
  by (simp add: listing_of_def csv_headers_def insert_commute)

lemma export_main_chain_run:
  assumes tok: "fs token_file_path \<noteq> None"
    and ok: "block_ok b"
    and ch: "chain (block_page b) bs"
  shows "\<exists>evs. export_main fs token_file_path folder order
            (concat (map block_trace (b # bs)) @ rest)
          = write_exports order (concat (map (\<lambda>b. get_entries (block_page b)) (b # bs))) evs"
proof -
  obtain fails r pg where b: "b = (fails, r, pg)"
    by (cases b) auto
  from ok b have js: "json r = Some pg"
    by (simp add: block_ok_def)
  let ?tr = "concat (map block_trace bs) @ rest"
  have req: "make_request url (ListFolder folder) 3 (fails @ Responds r # ?tr) =
      (Returned (Some r),
       retried 0 url (ListFolder folder) (map (projl \<circ> post_checked) fails)
         @ [Post url (ListFolder folder)], ?tr)"
    using ok unfolding b by (rule block_request)
  from ch b have "chain pg bs"
    by (simp add: block_page_def)
  from pagination_loop_chain [OF this, of "get_entries pg" rest]
  obtain evs where "pagination_loop pg (get_entries pg) ?tr =
      (Inr (get_entries pg @ concat (map (\<lambda>b. get_entries (block_page b)) bs)), evs, rest)"
    by (cases "pagination_loop pg (get_entries pg) ?tr") auto
  with tok req js show ?thesis
    by (auto simp: export_main_def b block_trace_def block_page_def)
qed

text \<open>
  C10. In a run of the export script in which every page arrives, the JSON file and the
  CSV file are written from the same accumulated sequence: the JSON array is that
  sequence, the CSV file is a header row followed by one row for each entry of the
  sequence in the same order, and the JSON array is as long as the CSV file has data rows.
\<close>

theorem json_and_csv_from_same_sequence:
  assumes "fs token_file_path \<noteq> None" and "block_ok b" and "chain (block_page b) bs"
    and "acc = concat (map (\<lambda>b. get_entries (block_page b)) (b # bs))"
    and "listing_of (csv_headers acc) (order (csv_headers acc))"
    and "run = export_main fs token_file_path folder order
                 (concat (map block_trace (b # bs)) @ rest)"
  shows "json_file run = Some acc
       \<and> csv_file run =
           Some (map JStr (order (csv_headers acc))
             # map (\<lambda>e. map (\<lambda>k. case map_of e k of None \<Rightarrow> JStr '''' | Some v \<Rightarrow> v)
                           (order (csv_headers acc))) acc)
       \<and> length (the (json_file run)) = length (tl (the (csv_file run)))
       \<and> ending run = Exit 0"
proof -
  from export_main_chain_run [where fs = fs and token_file_path = token_file_path
      and b = b and bs = bs and folder = folder and order = order and rest = rest,
      OF assms(1-3)] assms(4,6)
  obtain evs where "run = write_exports order acc evs"
    by auto
  then show ?thesis
    by (simp add: write_exports_listing [where es = acc and order = order, OF assms(5)])
qed

theorem json_and_csv_from_same_sequence_witness:
  "json_file (export_main [''token.txt'' \<mapsto> ''t''] ''token.txt'' '''' (\<lambda>S. [''size'', ''name''])
      [Responds \<lparr>status_code = 200, resp_text = '''',
         json = Some \<lparr>entries = Some [[(''name'', JStr ''a.txt''), (''size'', JNum 3)]],
                       members = None, cursor = Some ''c1'', has_more = Some True\<rparr>\<rparr>,
       Responds \<lparr>status_code = 200, resp_text = '''',
         json = Some \<lparr>entries = Some [[(''name'', JStr ''b'')]],
                       members = None, cursor = None, has_more = Some False\<rparr>\<rparr>])
     = Some [[(''name'', JStr ''a.txt''), (''size'', JNum 3)], [(''name'', JStr ''b'')]]
   \<and> csv_file (export_main [''token.txt'' \<mapsto> ''t''] ''token.txt'' '''' (\<lambda>S. [''size'', ''name''])
      [Responds \<lparr>status_code = 200, resp_text = '''',
         json = Some \<lparr>entries = Some [[(''name'', JStr ''a.txt''), (''size'', JNum 3)]],
                       members = None, cursor = Some ''c1'', has_more = Some True\<rparr>\<rparr>,
       Responds \<lparr>status_code = 200, resp_text = '''',
         json = Some \<lparr>entries = Some [[(''name'', JStr ''b'')]],
                       members = None, cursor = None, has_more = Some False\<rparr>\<rparr>])
     = Some [[JStr ''size'', JStr ''name''], [JNum 3, JStr ''a.txt''], [JStr '''', JStr ''b'']]"
  using json_and_csv_from_same_sequence
    [of "[''token.txt'' \<mapsto> ''t'']" "''token.txt''"
        "([], \<lparr>status_code = 200, resp_text = '''',
               json = Some \<lparr>entries = Some [[(''name'', JStr ''a.txt''), (''size'', JNum 3)]],
                             members = None, cursor = Some ''c1'', has_more = Some True\<rparr>\<rparr>,
          \<lparr>entries = Some [[(''name'', JStr ''a.txt''), (''size'', JNum 3)]],
            members = None, cursor = Some ''c1'', has_more = Some True\<rparr>)"
        "[([], \<lparr>status_code = 200, resp_text = '''',
               json = Some \<lparr>entries = Some [[(''name'', JStr ''b'')]],
                             members = None, cursor = None, has_more = Some False\<rparr>\<rparr>,
          \<lparr>entries = Some [[(''name'', JStr ''b'')]],
            members = None, cursor = None, has_more = Some False\<rparr>)]"
        "[[(''name'', JStr ''a.txt''), (''size'', JNum 3)], [(''name'', JStr ''b'')]]"
        "\<lambda>S. [''size'', ''name'']" _ "''''" "[]"]
  by (simp add: block_ok_def block_page_def block_trace_def get_has_more_def get_entries_def
      listing_of_def csv_headers_def insert_commute)

section \<open>Recursive search\<close>

lemma search_results_appends:
  assumes "\<And>p w. search_files_recursively d b dbx q p w =
             (fst (search_files_recursively d b dbx q p []),
              w @ snd (search_files_recursively d b dbx q p []))"
  shows "search_results d b dbx q es w =
           (fst (search_results d b dbx q es []), w @ snd (search_results d b dbx q es []))"
proof (induction es arbitrary: w)
  case Nil
  then show ?case by simp
next
  case (Cons e es)
  show ?case
  proof (cases "is_folder e")
    case False
    from Cons.IH [of "w @ [[name e, path_lower e]]"] Cons.IH [of "[[name e, path_lower e]]"]
    show ?thesis using False by simp
  next
    case True
    obtain err rows where sub: "search_files_recursively d b dbx q (path_lower e) [] = (err, rows)"
      by (cases "search_files_recursively d b dbx q (path_lower e) []") auto
    with assms [of "path_lower e" w]
    have subw: "search_files_recursively d b dbx q (path_lower e) w = (err, w @ rows)"
      by simp
    show ?thesis
    proof (cases err)
      case None
      from Cons.IH [of "w @ rows"] Cons.IH [of rows]
      show ?thesis using True sub subw None by simp
    next
      case (Some x)
      then show ?thesis using True sub subw by simp
    qed
  qed
qed

lemma search_files_recursively_appends:
  "search_files_recursively d b dbx q p w =
     (fst (search_files_recursively d b dbx q p []),
      w @ snd (search_files_recursively d b dbx q p []))"
proof (induction d arbitrary: p w)
  case 0
  then show ?case by simp
next
  case (Suc d)
  show ?case
  proof (cases "files_search b dbx p q")
    case (Inl e)
    then show ?thesis by simp
  next
    case (Inr es)
    from search_results_appends [of d b dbx q es w, OF Suc.IH] Inr
    show ?thesis by simp
  qed
qed

lemma search_results_ids_rows:
  assumes "\<And>p w. search_files_recursively_ids d b dbx q dbmid p w =
             (fst (search_files_recursively d b dbx q p []),
              w @ map (\<lambda>row. row @ [dbmid]) (snd (search_files_recursively d b dbx q p [])))"
  shows "search_results_ids d b dbx q dbmid es w =
           (fst (search_results d b dbx q es []),
            w @ map (\<lambda>row. row @ [dbmid]) (snd (search_results d b dbx q es [])))"
proof (induction es arbitrary: w)
  case Nil
  then show ?case by simp
next
  case (Cons e es)
  show ?case
  proof (cases "is_folder e")
    case False
    from search_results_appends [of d b dbx q es "[[name e, path_lower e]]",
        OF search_files_recursively_appends]
    have "search_results d b dbx q es [[name e, path_lower e]] =
        (fst (search_results d b dbx q es []),
         [[name e, path_lower e]] @ snd (search_results d b dbx q es []))" .
    with Cons.IH [of "w @ [[name e, path_lower e, dbmid]]"]
    show ?thesis using False by simp
  next
    case True
    obtain err rows where sub: "search_files_recursively d b dbx q (path_lower e) [] = (err, rows)"
      by (cases "search_files_recursively d b dbx q (path_lower e) []") auto
    with assms [of "path_lower e" w]
    have subw: "search_files_recursively_ids d b dbx q dbmid (path_lower e) w =
        (err, w @ map (\<lambda>row. row @ [dbmid]) rows)"
      by simp
    show ?thesis
    proof (cases err)
      case None
      from search_results_appends [of d b dbx q es rows, OF search_files_recursively_appends]
      have "search_results d b dbx q es rows =
          (fst (search_results d b dbx q es []), rows @ snd (search_results d b dbx q es []))" .
      with Cons.IH [of "w @ map (\<lambda>row. row @ [dbmid]) rows"]
      show ?thesis using True sub subw None by simp
    next
      case (Some x)
      then show ?thesis using True sub subw by simp
    qed
  qed
qed

lemma search_files_recursively_ids_rows:
  "search_files_recursively_ids d b dbx q dbmid p w =
     (fst (search_files_recursively d b dbx q p []),
      w @ map (\<lambda>row. row @ [dbmid]) (snd (search_files_recursively d b dbx q p [])))"
proof (induction d arbitrary: p w)
  case 0
  then show ?case by simp
next
  case (Suc d)
  show ?case
  proof (cases "files_search b dbx p q")
    case (Inl e)
    then show ?thesis by simp
  next
    case (Inr es)
    from search_results_ids_rows [of d b dbx q dbmid es w, OF Suc.IH] Inr
    show ?thesis by simp
  qed
qed

lemma search_results_from_matches:
  assumes "\<And>p. \<forall>row \<in> set (snd (search_files_recursively d b dbx q p [])). match_row b dbx q row"
    and "files_search b dbx p0 q = Inr es0" and "set es \<subseteq> set es0"
  shows "\<forall>row \<in> set (snd (search_results d b dbx q es [])). match_row b dbx q row"
  using assms(3)
proof (induction es)
  case Nil
  then show ?case by simp
next
  case (Cons e es)
  then have IH: "\<forall>row \<in> set (snd (search_results d b dbx q es [])). match_row b dbx q row"
    and e: "e \<in> set es0"
    by simp_all
  have ap: "search_results d b dbx q es w =
      (fst (search_results d b dbx q es []), w @ snd (search_results d b dbx q es []))" for w
    by (rule search_results_appends [OF search_files_recursively_appends])
  show ?case
  proof (cases "is_folder e")
    case False
    with e assms(2) have "match_row b dbx q [name e, path_lower e]"
      unfolding match_row_def by blast
    with IH False show ?thesis
      by (simp add: ap [of "[[name e, path_lower e]]"])
  next
    case True
    obtain err rows where sub: "search_files_recursively d b dbx q (path_lower e) [] = (err, rows)"
      by (cases "search_files_recursively d b dbx q (path_lower e) []") auto
    with assms(1) [of "path_lower e"] have rows: "\<forall>row \<in> set rows. match_row b dbx q row"
      by simp
    show ?thesis
    proof (cases err)
      case None
      with IH True sub rows show ?thesis
        by (auto simp: ap [of rows])
    next
      case (Some x)
      with True sub rows show ?thesis by simp
    qed
  qed
qed

lemma search_files_recursively_from_matches:
  "\<forall>row \<in> set (snd (search_files_recursively d b dbx q p [])). match_row b dbx q row"
proof (induction d arbitrary: p)
  case 0
  then show ?case by simp
next
  case (Suc d)
  show ?case
  proof (cases "files_search b dbx p q")
    case (Inl e)
    then show ?thesis by simp
  next
    case (Inr es)
    from search_results_from_matches [of d b dbx q p es es, OF Suc.IH Inr] Inr
    show ?thesis by simp
  qed
qed

lemma dropbox_select: "(dbx :: dropbox)\<lparr>select_user := u\<rparr> = \<lparr>select_user = u\<rparr>"
  by (cases dbx) simp

lemma member_search:
  "search_files_recursively_ids d b \<lparr>select_user = Some dbmid\<rparr> q dbmid '''' w =
     (fst (search_files_recursively d b \<lparr>select_user = Some dbmid\<rparr> q '''' []),
      w @ member_rows d b q dbmid)"
  unfolding member_rows_def
  by (subst (1 2) search_files_recursively_ids_rows) simp

lemma search_each_Cons:
  "search_each d b q dbx (dbmid # ids) w =
     (case fst (search_files_recursively d b \<lparr>select_user = Some dbmid\<rparr> q [] []) of
        Some e \<Rightarrow> (Some e, w @ member_rows d b q dbmid)
      | None \<Rightarrow> search_each d b q \<lparr>select_user = Some dbmid\<rparr> ids (w @ member_rows d b q dbmid))"
  by (simp add: dropbox_select member_search split: option.splits)

lemma search_each_segments:
  "\<exists>k \<le> length ids.
     snd (search_each d b q dbx ids w) = w @ concat (map (member_rows d b q) (take k ids))
     \<and> (fst (search_each d b q dbx ids w) = None \<longrightarrow> k = length ids)"
proof (induction ids arbitrary: dbx w)
  case Nil
  then show ?case by simp
next
  case (Cons dbmid ids)
  let ?dbx = "\<lparr>select_user = Some dbmid\<rparr>"
  let ?err = "fst (search_files_recursively d b ?dbx q [] [])"
  show ?case
  proof (cases ?err)
    case (Some e)
    then have "search_each d b q dbx (dbmid # ids) w = (Some e, w @ member_rows d b q dbmid)"
      by (subst search_each_Cons) simp
    then show ?thesis
      by (intro exI [of _ 1]) simp
  next
    case None
    then have eq: "search_each d b q dbx (dbmid # ids) w =
        search_each d b q ?dbx ids (w @ member_rows d b q dbmid)"
      by (subst search_each_Cons) simp
    from Cons.IH [of ?dbx "w @ member_rows d b q dbmid"]
    obtain k where k: "k \<le> length ids"
      and rows: "snd (search_each d b q ?dbx ids (w @ member_rows d b q dbmid)) =
         (w @ member_rows d b q dbmid) @ concat (map (member_rows d b q) (take k ids))"
      and full: "fst (search_each d b q ?dbx ids (w @ member_rows d b q dbmid)) = None
         \<longrightarrow> k = length ids"
      by (elim exE conjE)
    show ?thesis
    proof (intro exI [of _ "Suc k"] conjI)
      show "Suc k \<le> length (dbmid # ids)"
        using k by simp
      show "snd (search_each d b q dbx (dbmid # ids) w) =
          w @ concat (map (member_rows d b q) (take (Suc k) (dbmid # ids)))"
        unfolding eq rows by simp
      show "fst (search_each d b q dbx (dbmid # ids) w) = None
          \<longrightarrow> Suc k = length (dbmid # ids)"
        unfolding eq using full by simp
    qed
  qed
qed

lemma member_rows_from_matches:
  assumes "row \<in> set (member_rows d b q dbmid)"
  shows "length row = 3 \<and> row ! 2 = dbmid
       \<and> (\<exists>p es e. b (Some dbmid) p q = Inr es \<and> e \<in> set es \<and> \<not> is_folder e
            \<and> row = [name e, path_lower e, dbmid])"
proof -
  let ?dbx = "\<lparr>select_user = Some dbmid\<rparr>"
  have "member_rows d b q dbmid =
      map (\<lambda>row. row @ [dbmid]) (snd (search_files_recursively d b ?dbx q [] []))"
    unfolding member_rows_def by (subst search_files_recursively_ids_rows) simp
  with assms obtain row' where r: "row = row' @ [dbmid]"
    and r': "row' \<in> set (snd (search_files_recursively d b ?dbx q [] []))"
    by auto
  from r' search_files_recursively_from_matches [of d b ?dbx q "[]"]
  have "match_row b ?dbx q row'"
    by blast
  then obtain p es e where "b (Some dbmid) p q = Inr es" "e \<in> set es" "\<not> is_folder e"
    "row' = [name e, path_lower e]"
    unfolding match_row_def files_search_def by auto
  with r show ?thesis
    by auto
qed

lemma finish_search_fields:
  "s_csv (finish_search res) = Some (snd res)
   \<and> (s_ending (finish_search res) = Exit 0 \<longrightarrow> fst res = None)"
  by (cases res; cases "fst res") (simp_all add: finish_search_def)

text \<open>
  C9. The rows of the output file after the header are, member id by member id in the
  order of the input list, the rows written by the search for that id (all of them when
  the run ends normally). Every row written by the search for an id has three columns,
  the third is that id, and the first two are the name and path of a match that the
  backend returned to a request made under that same id.
\<close>

theorem rows_carry_member_id:
  "(csvs dbmid_file = Some rows \<and> read_dbmids rows = Inr ids \<longrightarrow>
      (\<exists>k \<le> length ids.
         s_csv (export_files_to_csv_ids depth backend csvs dbmid_file q) =
           Some ([''File Name'', ''Path'', ''Dropbox ID'']
                 # concat (map (member_rows depth backend q) (take k ids)))
         \<and> (s_ending (export_files_to_csv_ids depth backend csvs dbmid_file q) = Exit 0
              \<longrightarrow> k = length ids)))
   \<and> (\<forall>row \<in> set (member_rows depth backend q dbmid).
        length row = 3 \<and> row ! 2 = dbmid
        \<and> (\<exists>p es e. backend (Some dbmid) p q = Inr es \<and> e \<in> set es \<and> \<not> is_folder e
             \<and> row = [name e, path_lower e, dbmid]))"
proof -
  have "\<exists>k \<le> length ids.
         s_csv (export_files_to_csv_ids depth backend csvs dbmid_file q) =
           Some ([''File Name'', ''Path'', ''Dropbox ID'']
                 # concat (map (member_rows depth backend q) (take k ids)))
         \<and> (s_ending (export_files_to_csv_ids depth backend csvs dbmid_file q) = Exit 0
              \<longrightarrow> k = length ids)"
    if h: "csvs dbmid_file = Some rows" "read_dbmids rows = Inr ids"
  proof -
    let ?res = "search_each depth backend q \<lparr>select_user = None\<rparr> ids
        [[''File Name'', ''Path'', ''Dropbox ID'']]"
    from search_each_segments [of ids depth backend q "\<lparr>select_user = None\<rparr>"
        "[[''File Name'', ''Path'', ''Dropbox ID'']]"]
    obtain k where k: "k \<le> length ids"
      "snd ?res = [[''File Name'', ''Path'', ''Dropbox ID'']]
         @ concat (map (member_rows depth backend q) (take k ids))"
      "fst ?res = None \<longrightarrow> k = length ids"
      by (elim exE conjE)
    have run: "export_files_to_csv_ids depth backend csvs dbmid_file q = finish_search ?res"
      using h by (simp add: export_files_to_csv_ids_def)
    show ?thesis
    proof (intro exI [of _ k] conjI)
      show "k \<le> length ids" by (rule k(1))
      show "s_csv (export_files_to_csv_ids depth backend csvs dbmid_file q) =
          Some ([''File Name'', ''Path'', ''Dropbox ID'']
                # concat (map (member_rows depth backend q) (take k ids)))"
        unfolding run using finish_search_fields [of ?res] k(2) by simp
      show "s_ending (export_files_to_csv_ids depth backend csvs dbmid_file q) = Exit 0
          \<longrightarrow> k = length ids"
        unfolding run using finish_search_fields [of ?res] k(3) by blast
    qed
  qed
  then have first: "csvs dbmid_file = Some rows \<and> read_dbmids rows = Inr ids \<longrightarrow>
      (\<exists>k \<le> length ids.
         s_csv (export_files_to_csv_ids depth backend csvs dbmid_file q) =
           Some ([''File Name'', ''Path'', ''Dropbox ID'']
                 # concat (map (member_rows depth backend q) (take k ids)))
         \<and> (s_ending (export_files_to_csv_ids depth backend csvs dbmid_file q) = Exit 0
              \<longrightarrow> k = length ids))"
    by (intro impI) (elim conjE)
  have second: "\<forall>row \<in> set (member_rows depth backend q dbmid).
        length row = 3 \<and> row ! 2 = dbmid
        \<and> (\<exists>p es e. backend (Some dbmid) p q = Inr es \<and> e \<in> set es \<and> \<not> is_folder e
             \<and> row = [name e, path_lower e, dbmid])"
    by (intro ballI) (rule member_rows_from_matches)
  from first second show ?thesis by (rule conjI)
qed

theorem rows_carry_member_id_witness:
  "s_csv (export_files_to_csv_ids 2
      (\<lambda>u p q. if u = Some ''m1'' then Inr [FileMetadata ''a.txt'' ''/a.txt'']
                else Inr [FileMetadata ''b.txt'' ''/b.txt''])
      [''ids.csv'' \<mapsto> [[(''dbmid'', ''m1'')], [(''dbmid'', ''m2'')]]] ''ids.csv'' ''txt'') =
     Some [[''File Name'', ''Path'', ''Dropbox ID''],
           [''a.txt'', ''/a.txt'', ''m1''], [''b.txt'', ''/b.txt'', ''m2'']]
   \<and> member_rows 2
      (\<lambda>u p q. if u = Some ''m1'' then Inr [FileMetadata ''a.txt'' ''/a.txt'']
                else Inr [FileMetadata ''b.txt'' ''/b.txt'']) ''txt'' ''m1'' =
     [[''a.txt'', ''/a.txt'', ''m1'']]"
  using rows_carry_member_id
    [of "[''ids.csv'' \<mapsto> [[(''dbmid'', ''m1'')], [(''dbmid'', ''m2'')]]]" "''ids.csv''"
        "[[(''dbmid'', ''m1'')], [(''dbmid'', ''m2'')]]" "[''m1'', ''m2'']" 2
        "\<lambda>u p q. if u = Some ''m1'' then Inr [FileMetadata ''a.txt'' ''/a.txt'']
                  else Inr [FileMetadata ''b.txt'' ''/b.txt'']"
        "''txt''" "''m1''"]
  by (simp add: export_files_to_csv_ids_def finish_search_def member_rows_def files_search_def
      eval_nat_numeral)

lemma search_results_no_folder:
  "\<forall>e \<in> set es. \<not> is_folder e \<Longrightarrow>
     search_results d b dbx q es w = (None, w @ map (\<lambda>e. [name e, path_lower e]) es)"
  by (induction es arbitrary: w) simp_all

lemma matching_files_no_folder: "\<forall>e \<in> set (matching_files m ns). \<not> is_folder e"
  by (simp add: matching_files_def)

lemma fold_max_start: "(a::nat) \<le> fold max xs a"
proof (induction xs arbitrary: a)
  case Nil
  then show ?case by simp
next
  case (Cons x xs)
  have "a \<le> max x a" by simp
  also have "max x a \<le> fold max xs (max x a)" by (rule Cons.IH)
  finally show ?case by simp
qed

lemma fold_max_member: "k \<in> set ks \<Longrightarrow> f k \<le> fold max (map f ks) (a::nat)"
proof (induction ks arbitrary: a)
  case Nil
  then show ?case by simp
next
  case (Cons x ks)
  show ?case
  proof (cases "k = x")
    case True
    have "f x \<le> max (f x) a" by simp
    also have "max (f x) a \<le> fold max (map f ks) (max (f x) a)" by (rule fold_max_start)
    finally show ?thesis using True by simp
  next
    case False
    with Cons.prems have "k \<in> set ks" by simp
    from Cons.IH [OF this, of "max (f x) a"] show ?thesis by simp
  qed
qed

lemma subtree_search:
  assumes srv: "serves Subtree (\<lambda>p. files_search b dbx p q) m (Folder n p0 kids)"
    and nomatch: "\<forall>k \<in> set (below (Folder n p0 kids)).
        is_folder (entry_of k) \<longrightarrow> \<not> m (name (entry_of k))"
    and depth: "0 < d"
  shows "search_files_recursively d b dbx q p0 w =
           (None, w @ map (\<lambda>e. [name e, path_lower e])
                        (matching_files m (below (Folder n p0 kids))))"
proof -
  from depth obtain d' where d: "d = Suc d'"
    by (cases d) auto
  from nomatch have "found Subtree m kids = matching_files m (below (Folder n p0 kids))"
    unfolding matching_files_def
    by (auto intro!: filter_cong)
  with srv have "files_search b dbx p0 q = Inr (matching_files m (below (Folder n p0 kids)))"
    by simp
  with search_results_no_folder [OF matching_files_no_folder] show ?thesis
    by (simp add: d)
qed

lemma children_search_kids:
  assumes sub: "\<And>k. k \<in> set ks \<Longrightarrow> is_folder (entry_of k) \<Longrightarrow>
        search_files_recursively d b dbx q (path_lower (entry_of k)) [] =
          (None, map (\<lambda>e. [name e, path_lower e]) (matching_files m (below k)))"
    and allmatch: "\<forall>k \<in> set ks. is_folder (entry_of k) \<longrightarrow> m (name (entry_of k))"
  shows "search_results d b dbx q (found Children m ks) w =
           (None, w @ map (\<lambda>e. [name e, path_lower e])
                        (matching_files m (concat (map (\<lambda>k. k # below k) ks))))"
  using assms
proof (induction ks arbitrary: w)
  case Nil
  then show ?case by (simp add: matching_files_def)
next
  case (Cons k ks)
  have IH: "search_results d b dbx q (found Children m ks) w' =
      (None, w' @ map (\<lambda>e. [name e, path_lower e])
                    (matching_files m (concat (map (\<lambda>k. k # below k) ks))))" for w'
    using Cons.prems by (intro Cons.IH) simp_all
  show ?case
  proof (cases k)
    case (File n p)
    then show ?thesis
      using IH by (simp add: matching_files_def)
  next
    case (Folder n p kids)
    with Cons.prems(2) have mn: "m n" by simp
    from Cons.prems(1) [of k] Folder
    have "search_files_recursively d b dbx q p [] =
        (None, map (\<lambda>e. [name e, path_lower e]) (matching_files m (below k)))"
      by simp
    with search_files_recursively_appends [of d b dbx q p w]
    have "search_files_recursively d b dbx q p w =
        (None, w @ map (\<lambda>e. [name e, path_lower e]) (matching_files m (below k)))"
      by simp
    moreover have "matching_files m (concat (map (\<lambda>k. k # below k) (k # ks))) =
        matching_files m (below k) @ matching_files m (concat (map (\<lambda>k. k # below k) ks))"
      using Folder by (simp add: matching_files_def)
    ultimately show ?thesis
      using Folder mn IH by simp
  qed
qed

lemma children_search:
  "serves Children (\<lambda>p. files_search b dbx p q) m t \<Longrightarrow>
   \<forall>k \<in> set (below t). is_folder (entry_of k) \<longrightarrow> m (name (entry_of k)) \<Longrightarrow>
   height t \<le> d \<Longrightarrow> is_folder (entry_of t) \<Longrightarrow>
   search_files_recursively d b dbx q (path_lower (entry_of t)) [] =
     (None, map (\<lambda>e. [name e, path_lower e]) (matching_files m (below t)))"
proof (induction t arbitrary: d)
  case (File n p)
  then show ?case by simp
next
  case (Folder n p kids)
  from Folder.prems(3) obtain d' where d: "d = Suc d'"
    and hk: "fold max (map height kids) 0 \<le> d'"
    by (cases d) auto
  have sub: "search_files_recursively d' b dbx q (path_lower (entry_of k)) [] =
      (None, map (\<lambda>e. [name e, path_lower e]) (matching_files m (below k)))"
    if k: "k \<in> set kids" and f: "is_folder (entry_of k)" for k
  proof (rule Folder.IH [OF k _ _ _ f])
    from Folder.prems(1) k show "serves Children (\<lambda>p. files_search b dbx p q) m k"
      by simp
    from Folder.prems(2) k
    show "\<forall>j \<in> set (below k). is_folder (entry_of j) \<longrightarrow> m (name (entry_of j))"
      by auto
    from fold_max_member [OF k, of height 0] hk show "height k \<le> d'"
      by simp
  qed
  from Folder.prems(2) have "\<forall>k \<in> set kids. is_folder (entry_of k) \<longrightarrow> m (name (entry_of k))"
    by auto
  from children_search_kids [of kids d' b dbx q m "[]", OF sub this]
  have "search_results d' b dbx q (found Children m kids) [] =
      (None, map (\<lambda>e. [name e, path_lower e]) (matching_files m (below (Folder n p kids))))"
    by simp
  moreover from Folder.prems(1) have "files_search b dbx p q = Inr (found Children m kids)"
    by simp
  ultimately show ?case
    by (simp add: d)
qed

text \<open>
  C7, as the code has it. The search never writes a row for a folder: every row is the
  name and path of a match that is not a folder. Which files it writes depends on what
  \<^verbatim>\<open>files_search\<close> searches, since nothing is deduplicated. When a search covers the
  whole subtree and no folder name matches the query, or when a search covers the
  folder's own children and every folder name matches (and the tree is not deeper than
  the interpreter allows), the search ends normally and its rows are the matching files
  of the tree, one row for each, parents before children; the script with the member id
  writes the same rows with the id as third column.
\<close>

theorem recursive_search_on_tree:
  "(\<forall>row \<in> set (snd (search_files_recursively d b dbx q p [])). match_row b dbx q row)
   \<and> snd (search_files_recursively_ids d b dbx q dbmid p [])
       = map (\<lambda>row. row @ [dbmid]) (snd (search_files_recursively d b dbx q p []))
   \<and> (serves Subtree (\<lambda>p. files_search b1 dbx1 p q1) m1 (Folder n1 p1 kids1)
       \<and> (\<forall>k \<in> set (below (Folder n1 p1 kids1)).
             is_folder (entry_of k) \<longrightarrow> \<not> m1 (name (entry_of k)))
       \<and> 0 < d1 \<longrightarrow>
         search_files_recursively d1 b1 dbx1 q1 p1 w1 =
           (None, w1 @ map (\<lambda>e. [name e, path_lower e])
                         (matching_files m1 (below (Folder n1 p1 kids1))))
       \<and> search_files_recursively_ids d1 b1 dbx1 q1 dbmid1 p1 w1 =
           (None, w1 @ map (\<lambda>e. [name e, path_lower e, dbmid1])
                         (matching_files m1 (below (Folder n1 p1 kids1)))))
   \<and> (serves Children (\<lambda>p. files_search b2 dbx2 p q2) m2 (Folder n2 p2 kids2)
       \<and> (\<forall>k \<in> set (below (Folder n2 p2 kids2)).
             is_folder (entry_of k) \<longrightarrow> m2 (name (entry_of k)))
       \<and> height (Folder n2 p2 kids2) \<le> d2 \<longrightarrow>
         search_files_recursively d2 b2 dbx2 q2 p2 w2 =
           (None, w2 @ map (\<lambda>e. [name e, path_lower e])
                         (matching_files m2 (below (Folder n2 p2 kids2))))
       \<and> search_files_recursively_ids d2 b2 dbx2 q2 dbmid2 p2 w2 =
           (None, w2 @ map (\<lambda>e. [name e, path_lower e, dbmid2])
                         (matching_files m2 (below (Folder n2 p2 kids2)))))"
proof -
  have ids: "search_files_recursively_ids d' b' dbx' q' dbmid' p' w' =
      (None, w' @ map (\<lambda>e. [name e, path_lower e, dbmid']) es)"
    if "search_files_recursively d' b' dbx' q' p' [] =
      (None, map (\<lambda>e. [name e, path_lower e]) es)"
    for d' b' dbx' q' dbmid' p' w' es
    by (subst search_files_recursively_ids_rows) (simp add: that)
  have c1: "\<forall>row \<in> set (snd (search_files_recursively d b dbx q p [])). match_row b dbx q row"
    by (rule search_files_recursively_from_matches)
  have c2: "snd (search_files_recursively_ids d b dbx q dbmid p [])
       = map (\<lambda>row. row @ [dbmid]) (snd (search_files_recursively d b dbx q p []))"
    by (subst search_files_recursively_ids_rows) simp
  have c3: "serves Subtree (\<lambda>p. files_search b1 dbx1 p q1) m1 (Folder n1 p1 kids1)
       \<and> (\<forall>k \<in> set (below (Folder n1 p1 kids1)).
             is_folder (entry_of k) \<longrightarrow> \<not> m1 (name (entry_of k)))
       \<and> 0 < d1 \<longrightarrow>
         search_files_recursively d1 b1 dbx1 q1 p1 w1 =
           (None, w1 @ map (\<lambda>e. [name e, path_lower e])
                         (matching_files m1 (below (Folder n1 p1 kids1))))
       \<and> search_files_recursively_ids d1 b1 dbx1 q1 dbmid1 p1 w1 =
           (None, w1 @ map (\<lambda>e. [name e, path_lower e, dbmid1])
                         (matching_files m1 (below (Folder n1 p1 kids1))))"
  proof (intro impI, elim conjE)
    assume h: "serves Subtree (\<lambda>p. files_search b1 dbx1 p q1) m1 (Folder n1 p1 kids1)"
      "\<forall>k \<in> set (below (Folder n1 p1 kids1)).
         is_folder (entry_of k) \<longrightarrow> \<not> m1 (name (entry_of k))"
      "0 < d1"
    from subtree_search [OF h, of "[]"] subtree_search [OF h, of w1]
    show "search_files_recursively d1 b1 dbx1 q1 p1 w1 =
           (None, w1 @ map (\<lambda>e. [name e, path_lower e])
                         (matching_files m1 (below (Folder n1 p1 kids1))))
       \<and> search_files_recursively_ids d1 b1 dbx1 q1 dbmid1 p1 w1 =
           (None, w1 @ map (\<lambda>e. [name e, path_lower e, dbmid1])
                         (matching_files m1 (below (Folder n1 p1 kids1))))"
      by (simp add: ids)
  qed
  have c4: "serves Children (\<lambda>p. files_search b2 dbx2 p q2) m2 (Folder n2 p2 kids2)
       \<and> (\<forall>k \<in> set (below (Folder n2 p2 kids2)).
             is_folder (entry_of k) \<longrightarrow> m2 (name (entry_of k)))
       \<and> height (Folder n2 p2 kids2) \<le> d2 \<longrightarrow>
         search_files_recursively d2 b2 dbx2 q2 p2 w2 =
           (None, w2 @ map (\<lambda>e. [name e, path_lower e])
                         (matching_files m2 (below (Folder n2 p2 kids2))))
       \<and> search_files_recursively_ids d2 b2 dbx2 q2 dbmid2 p2 w2 =
           (None, w2 @ map (\<lambda>e. [name e, path_lower e, dbmid2])
                         (matching_files m2 (below (Folder n2 p2 kids2))))"
  proof (intro impI, elim conjE)
    assume h: "serves Children (\<lambda>p. files_search b2 dbx2 p q2) m2 (Folder n2 p2 kids2)"
      "\<forall>k \<in> set (below (Folder n2 p2 kids2)).
         is_folder (entry_of k) \<longrightarrow> m2 (name (entry_of k))"
      "height (Folder n2 p2 kids2) \<le> d2"
    from children_search [OF h]
    have e: "search_files_recursively d2 b2 dbx2 q2 p2 [] =
        (None, map (\<lambda>e. [name e, path_lower e]) (matching_files m2 (below (Folder n2 p2 kids2))))"
      by simp
    with search_files_recursively_appends [of d2 b2 dbx2 q2 p2 w2]
    have "search_files_recursively d2 b2 dbx2 q2 p2 w2 =
        (None, w2 @ map (\<lambda>e. [name e, path_lower e])
                      (matching_files m2 (below (Folder n2 p2 kids2))))"
      by simp
    with ids [OF e]
    show "search_files_recursively d2 b2 dbx2 q2 p2 w2 =
           (None, w2 @ map (\<lambda>e. [name e, path_lower e])
                         (matching_files m2 (below (Folder n2 p2 kids2))))
       \<and> search_files_recursively_ids d2 b2 dbx2 q2 dbmid2 p2 w2 =
           (None, w2 @ map (\<lambda>e. [name e, path_lower e, dbmid2])
                         (matching_files m2 (below (Folder n2 p2 kids2))))"
      by simp
  qed
  from c1 c2 c3 c4 show ?thesis by (intro conjI)
qed

theorem recursive_search_on_tree_witness:
  "search_files_recursively 1 (tree_search Subtree (\<lambda>n. n \<noteq> ''b'') example_tree)
      \<lparr>select_user = Some ''u''\<rparr> ''txt'' '''' [[''File Name'', ''Path'']] =
     (None, [[''File Name'', ''Path''], [''a.txt'', ''/a.txt''], [''c.txt'', ''/b/c.txt'']])
   \<and> search_files_recursively 2 (tree_search Children (\<lambda>n. True) example_tree)
      \<lparr>select_user = Some ''u''\<rparr> ''txt'' '''' [[''File Name'', ''Path'']] =
     (None, [[''File Name'', ''Path''], [''a.txt'', ''/a.txt''], [''c.txt'', ''/b/c.txt'']])"
  using recursive_search_on_tree
    [of 1 "tree_search Subtree (\<lambda>n. n \<noteq> ''b'') example_tree" "\<lparr>select_user = Some ''u''\<rparr>"
        "''txt''" "''''" "''u''"
        "tree_search Subtree (\<lambda>n. n \<noteq> ''b'') example_tree" "\<lparr>select_user = Some ''u''\<rparr>"
        "''txt''" "\<lambda>n. n \<noteq> ''b''" "''''" "''''"
        "[File ''a.txt'' ''/a.txt'', Folder ''b'' ''/b'' [File ''c.txt'' ''/b/c.txt'']]"
        1 "[[''File Name'', ''Path'']]" "''u''"
        "tree_search Children (\<lambda>n. True) example_tree" "\<lparr>select_user = Some ''u''\<rparr>"
        "''txt''" "\<lambda>n. True" "''''" "''''"
        "[File ''a.txt'' ''/a.txt'', Folder ''b'' ''/b'' [File ''c.txt'' ''/b/c.txt'']]"
        2 "[[''File Name'', ''Path'']]" "''u''"]
  by (simp add: tree_search_def example_tree_def files_search_def matching_files_def)

text \<open>
  C7 as stated fails on the tree with \<^verbatim>\<open>a.txt\<close> and \<^verbatim>\<open>b/c.txt\<close>, whatever
  \<^verbatim>\<open>files_search\<close> searches. When it searches the whole subtree and the query also
  matches folder \<^verbatim>\<open>b\<close>, \<^verbatim>\<open>b/c.txt\<close> is written twice: once as a match of the root and
  once by the recursion into \<^verbatim>\<open>b\<close>. When it searches the folder's own children and the
  query does not match \<^verbatim>\<open>b\<close>, the search never enters \<^verbatim>\<open>b\<close> and \<^verbatim>\<open>b/c.txt\<close> is not
  written.
\<close>

theorem nested_file_written_twice_or_never:
  "serves Subtree
     (\<lambda>p. files_search (tree_search Subtree (\<lambda>n. True) example_tree)
             \<lparr>select_user = Some ''u''\<rparr> p ''q'')
     (\<lambda>n. True) example_tree
   \<and> search_files_recursively 3 (tree_search Subtree (\<lambda>n. True) example_tree)
        \<lparr>select_user = Some ''u''\<rparr> ''q'' '''' [] =
       (None, [[''a.txt'', ''/a.txt''], [''c.txt'', ''/b/c.txt''], [''c.txt'', ''/b/c.txt'']])
   \<and> serves Children
     (\<lambda>p. files_search (tree_search Children (\<lambda>n. n \<noteq> ''b'') example_tree)
             \<lparr>select_user = Some ''u''\<rparr> p ''q'')
     (\<lambda>n. n \<noteq> ''b'') example_tree
   \<and> search_files_recursively 3 (tree_search Children (\<lambda>n. n \<noteq> ''b'') example_tree)
        \<lparr>select_user = Some ''u''\<rparr> ''q'' '''' [] =
       (None, [[''a.txt'', ''/a.txt'']])"
  by (simp add: tree_search_def example_tree_def files_search_def eval_nat_numeral)

end
